theory Spec2Isabelle
  imports Main "HOL-Library.Sublist" "HOL-Library.AList"
begin

section \<open>Python string operations used by bundle\_libs.py\<close>

text \<open>
  A Python \<open>str\<close> is modelled as a \<open>string\<close>; one \<open>char\<close> stands for one code point
  below 256. The line boundaries of \<open>str.splitlines\<close> and the white space of \<open>str.strip\<close>
  are the ones Python defines in that range (the boundaries U+2028 and U+2029 and the
  white space above U+00FF have no counterpart here).
\<close>

definition LF :: char where "LF = CHR 0x0A"
definition CR :: char where "CR = CHR 0x0D"

definition is_linebreak :: "char \<Rightarrow> bool" where
  "is_linebreak c \<longleftrightarrow>
     c \<in> {CHR 0x0A, CHR 0x0B, CHR 0x0C, CHR 0x0D, CHR 0x1C, CHR 0x1D, CHR 0x1E, CHR 0x85}"

definition is_space :: "char \<Rightarrow> bool" where
  "is_space c \<longleftrightarrow>
     c \<in> {CHR 0x09, CHR 0x0A, CHR 0x0B, CHR 0x0C, CHR 0x0D, CHR 0x1C, CHR 0x1D, CHR 0x1E,
          CHR 0x1F, CHR 0x20, CHR 0x85, CHR 0xA0}"

text \<open>\<open>s.startswith(p)\<close>, \<open>s.endswith(p)\<close> and \<open>p in s\<close>.\<close>

definition startswith :: "string \<Rightarrow> string \<Rightarrow> bool" where
  "startswith s p \<longleftrightarrow> prefix p s"

definition endswith :: "string \<Rightarrow> string \<Rightarrow> bool" where
  "endswith s p \<longleftrightarrow> suffix p s"

definition contains :: "string \<Rightarrow> string \<Rightarrow> bool" where
  "contains s p \<longleftrightarrow> sublist p s"

text \<open>
  \<open>str.splitlines()\<close>: the text is cut at every line boundary, \<open>\r\n\<close> counting as one;
  the boundaries are dropped and a final boundary opens no empty last line. The first
  argument holds the characters of the current line, last one first.
\<close>

fun splitlines_from :: "string \<Rightarrow> string \<Rightarrow> string list" where
  "splitlines_from cur [] = (if cur = [] then [] else [rev cur])"
| "splitlines_from cur (c # cs) =
     (if c = CR \<and> cs \<noteq> [] \<and> hd cs = LF then rev cur # splitlines_from [] (tl cs)
      else if is_linebreak c then rev cur # splitlines_from [] cs
      else splitlines_from (c # cur) cs)"

definition splitlines :: "string \<Rightarrow> string list" where
  "splitlines s = splitlines_from [] s"

text \<open>\<open>str.strip()\<close>: white space is removed at both ends.\<close>

definition strip :: "string \<Rightarrow> string" where
  "strip s = rev (dropWhile is_space (rev (dropWhile is_space s)))"

text \<open>
  \<open>s.split(sep, 1)\<close> for a one-character separator: at most one cut, at the first
  occurrence of the separator; and \<open>s.split(sep)\<close>, which cuts at every occurrence.
\<close>

definition split1 :: "char \<Rightarrow> string \<Rightarrow> string list" where
  "split1 sep s =
     (if sep \<in> set s
      then [takeWhile (\<lambda>c. c \<noteq> sep) s, tl (dropWhile (\<lambda>c. c \<noteq> sep) s)]
      else [s])"

fun split_from :: "char \<Rightarrow> string \<Rightarrow> string \<Rightarrow> string list" where
  "split_from sep cur [] = [rev cur]"
| "split_from sep cur (c # cs) =
     (if c = sep then rev cur # split_from sep [] cs else split_from sep (c # cur) cs)"

definition split :: "char \<Rightarrow> string \<Rightarrow> string list" where
  "split sep s = split_from sep [] s"

section \<open>otool\_deps: the paths in the output of otool -L\<close>

text \<open>
  The body of \<open>otool_deps\<close> after the call of the tool:
  \<^verbatim>\<open>
    deps = []
    for line in out.splitlines()[1:]:
        dep = line.strip().split(" ", 1)[0]
        deps.append(dep)
    return deps
  \<close>
  \<open>split\<close> always returns a first element, so the index 0 never fails.
\<close>

definition dep_of_line :: "string \<Rightarrow> string" where
  "dep_of_line line = hd (split1 CHR '' '' (strip line))"

fun deps_loop :: "string list \<Rightarrow> string list \<Rightarrow> string list" where
  "deps_loop deps [] = deps"
| "deps_loop deps (line # lines) = deps_loop (deps @ [dep_of_line line]) lines"

definition otool_deps_of :: "string \<Rightarrow> string list" where
  "otool_deps_of out = deps_loop [] (drop 1 (splitlines out))"

section \<open>The file system and the Mach-O tools\<close>

text \<open>
  The script works on files through \<open>pathlib\<close> and \<open>shutil\<close> and on binaries through
  the tools \<open>otool\<close> and \<open>install_name_tool\<close>. The model keeps what the script can see
  of a Mach-O binary: its install name (only a dylib has one), the names of the
  libraries it loads, and its runtime search paths, each list in load-command order.
\<close>

record macho =
  install_id :: "string option"
  load_deps :: "string list"
  rpaths :: "string list"

datatype node = Dir | Bin macho | Other string

text \<open>
  Every effect on the outside world is recorded in a trace, in the order it happens;
  the trace is not read by the script.
\<close>

datatype event =
    Exec "string list"
  | Mkdir string
  | Rmtree string
  | Copytree string string
  | Copy2 string string
  | WriteText string string

datatype error =
    SystemExit nat
  | CalledProcessError "string list"
  | FileNotFoundError string
  | FileExistsError string
  | NotADirectoryError string
  | IsADirectoryError string

text \<open>
  A path is the string \<open>str(path)\<close> of a \<open>pathlib\<close> path. \<open>files\<close> lists every existing
  path with what is there. Symbolic links are not modelled, and a part \<open>..\<close> is not
  resolved: a file is found under the one string that lists it.
\<close>

record world =
  files :: "(string \<times> node) list"
  trace :: "event list"
  stderr :: "string list"

text \<open>
  A raised exception or \<open>sys.exit\<close> is \<open>Inl\<close>, with the world as it was at that moment;
  nothing in the script catches one.
\<close>

type_synonym outcome = "error \<times> world + world"

definition and_then :: "outcome \<Rightarrow> (world \<Rightarrow> error \<times> world + 'a) \<Rightarrow> error \<times> world + 'a" where
  "and_then r f = (case r of Inl e \<Rightarrow> Inl e | Inr w \<Rightarrow> f w)"

definition lookup :: "world \<Rightarrow> string \<Rightarrow> node option" where
  "lookup w p = map_of (files w) p"

definition exists :: "world \<Rightarrow> string \<Rightarrow> bool" where
  "exists w p \<longleftrightarrow> lookup w p \<noteq> None"

definition is_dir :: "world \<Rightarrow> string \<Rightarrow> bool" where
  "is_dir w p \<longleftrightarrow> lookup w p = Some Dir"

definition paths :: "world \<Rightarrow> string list" where
  "paths w = remdups (map fst (files w))"

definition listing :: "world \<Rightarrow> (string \<times> node) list" where
  "listing w =
     concat (map (\<lambda>p. case lookup w p of None \<Rightarrow> [] | Some n \<Rightarrow> [(p, n)]) (paths w))"

definition record_event :: "event \<Rightarrow> world \<Rightarrow> world" where
  "record_event e w = w\<lparr>trace := trace w @ [e]\<rparr>"

definition put :: "string \<Rightarrow> node \<Rightarrow> world \<Rightarrow> world" where
  "put p n w = w\<lparr>files := AList.update p n (files w)\<rparr>"

text \<open>
  \<open>pathlib\<close> keeps a path as a root (none, \<open>/\<close>, or \<open>//\<close> when the string starts with
  exactly two slashes) and a list of parts. When a path is made, empty parts and the
  parts \<open>.\<close> are dropped; a part \<open>..\<close> is kept. \<open>str\<close> of a path is the root followed by
  the parts with one slash between them, and \<open>.\<close> for the path that has neither.
\<close>

definition path_root :: "string \<Rightarrow> string" where
  "path_root s =
     (if startswith s ''//'' \<and> \<not> startswith s ''///'' then ''//''
      else if startswith s ''/'' then ''/'' else [])"

definition path_parts :: "string \<Rightarrow> string list" where
  "path_parts s = filter (\<lambda>part. part \<noteq> [] \<and> part \<noteq> ''.'') (split CHR ''/'' s)"

fun join_parts :: "string list \<Rightarrow> string" where
  "join_parts [] = []"
| "join_parts [part] = part"
| "join_parts (part # parts) = part @ ''/'' @ join_parts parts"

definition render_path :: "string \<Rightarrow> string list \<Rightarrow> string" where
  "render_path root parts = (if root = [] \<and> parts = [] then ''.'' else root @ join_parts parts)"

text \<open>
  \<open>Path s\<close> is \<open>str(Path(s))\<close>; \<open>joinpath parent name\<close> is \<open>str(parent / name)\<close>, where an
  absolute \<open>name\<close> replaces \<open>parent\<close>; \<open>path_name p\<close> is \<open>p.name\<close>, the last part, or the
  empty string when there is none; \<open>path_parent p\<close> is \<open>str(p.parent)\<close>.
\<close>

definition Path :: "string \<Rightarrow> string" where
  "Path s = render_path (path_root s) (path_parts s)"

definition joinpath :: "string \<Rightarrow> string \<Rightarrow> string" where
  "joinpath parent name =
     (if startswith name ''/'' then Path name
      else render_path (path_root parent) (path_parts parent @ path_parts name))"

definition path_name :: "string \<Rightarrow> string" where
  "path_name p = (if path_parts p = [] then [] else last (path_parts p))"

definition path_parent :: "string \<Rightarrow> string" where
  "path_parent p = render_path (path_root p) (butlast (path_parts p))"

text \<open>
  Notions for the facts about paths: a part as \<open>pathlib\<close> keeps it, a root, a path with at
  least one part in the form \<open>str\<close> gives it, and the text after the last slash of a
  string.
\<close>

definition is_part :: "string \<Rightarrow> bool" where
  "is_part x \<longleftrightarrow> x \<noteq> [] \<and> x \<noteq> ''.'' \<and> CHR ''/'' \<notin> set x"

definition is_root :: "string \<Rightarrow> bool" where
  "is_root r \<longleftrightarrow> r = [] \<or> r = ''/'' \<or> r = ''//''"

definition normal :: "string \<Rightarrow> bool" where
  "normal p \<longleftrightarrow> (\<exists>r qs. is_root r \<and> list_all is_part qs \<and> qs \<noteq> [] \<and> p = r @ join_parts qs)"

definition basename :: "string \<Rightarrow> string" where
  "basename p = rev (takeWhile (\<lambda>c. c \<noteq> CHR ''/'') (rev p))"

text \<open>
  \<open>inside d p\<close>: the path \<open>p\<close> lies below the directory \<open>d\<close>. It is used for directories
  with at least one part, where \<open>str\<close> does not end in a slash.
\<close>

definition inside :: "string \<Rightarrow> string \<Rightarrow> bool" where
  "inside d p \<longleftrightarrow> startswith p (d @ ''/'')"

text \<open>
  \<open>d.mkdir(parents=True, exist_ok=True)\<close>. At each of its three calls the parent is a
  directory (\<open>bundle_dir\<close> was tested, \<open>Frameworks\<close> is made first), so no parent is
  ever created.
\<close>

definition mkdir :: "string \<Rightarrow> world \<Rightarrow> outcome" where
  "mkdir d w =
     (if exists w d then (if is_dir w d then Inr w else Inl (FileExistsError d, w))
      else Inr (record_event (Mkdir d) (put d Dir w)))"

text \<open>\<open>shutil.rmtree(d)\<close>: a directory goes with all that is inside; a file is an error.\<close>

definition rmtree :: "string \<Rightarrow> world \<Rightarrow> outcome" where
  "rmtree d w =
     (case lookup w d of
        None \<Rightarrow> Inl (FileNotFoundError d, w)
      | Some Dir \<Rightarrow>
          Inr (record_event (Rmtree d)
                (w\<lparr>files := filter (\<lambda>(p, n). p \<noteq> d \<and> \<not> inside d p) (files w)\<rparr>))
      | Some _ \<Rightarrow> Inl (NotADirectoryError d, w))"

text \<open>
  \<open>shutil.copytree(src, dst, symlinks=True)\<close>: \<open>dst\<close> must not exist; it is made and
  every path inside \<open>src\<close> is copied to the same place inside \<open>dst\<close>.
\<close>

fun put_all :: "(string \<times> node) list \<Rightarrow> world \<Rightarrow> world" where
  "put_all [] w = w"
| "put_all ((p, n) # es) w = put_all es (put p n w)"

definition copytree :: "string \<Rightarrow> string \<Rightarrow> world \<Rightarrow> outcome" where
  "copytree src dst w =
     (case lookup w src of
        None \<Rightarrow> Inl (FileNotFoundError src, w)
      | Some Dir \<Rightarrow>
          if exists w dst then Inl (FileExistsError dst, w)
          else Inr (record_event (Copytree src dst)
                 (put_all
                    (map (\<lambda>(p, n). (dst @ drop (length src) p, n))
                       (filter (\<lambda>(p, n). inside src p) (listing w)))
                    (put dst Dir w)))
      | Some _ \<Rightarrow> Inl (NotADirectoryError src, w))"

text \<open>
  \<open>shutil.copy2(src, dst)\<close>, called only when \<open>dst\<close> does not exist. The source is opened
  first; then the destination is opened for writing, which fails when the directory it
  is to be made in does not exist or is no directory.
\<close>

definition copy2 :: "string \<Rightarrow> string \<Rightarrow> world \<Rightarrow> outcome" where
  "copy2 src dst w =
     (case lookup w src of
        None \<Rightarrow> Inl (FileNotFoundError src, w)
      | Some Dir \<Rightarrow> Inl (IsADirectoryError src, w)
      | Some n \<Rightarrow>
          (case lookup w (path_parent dst) of
             None \<Rightarrow> Inl (FileNotFoundError dst, w)
           | Some Dir \<Rightarrow> Inr (record_event (Copy2 src dst) (put dst n w))
           | Some _ \<Rightarrow> Inl (NotADirectoryError dst, w)))"

text \<open>\<open>p.write_text(text)\<close>.\<close>

definition write_text :: "string \<Rightarrow> string \<Rightarrow> world \<Rightarrow> outcome" where
  "write_text p txt w =
     (if is_dir w p then Inl (IsADirectoryError p, w)
      else Inr (record_event (WriteText p txt) (put p (Other txt) w)))"

text \<open>
  \<open>d.glob("*.dylib")\<close>: the entries of \<open>d\<close> whose name ends in \<open>.dylib\<close>;
  \<open>d.rglob("*.dylib")\<close>: the same at any depth below \<open>d\<close>.
\<close>

definition glob_dylib :: "world \<Rightarrow> string \<Rightarrow> string list" where
  "glob_dylib w d =
     filter (\<lambda>p. inside d p \<and> CHR ''/'' \<notin> set (drop (length d + 1) p) \<and> endswith p ''.dylib'')
       (paths w)"

definition rglob_dylib :: "world \<Rightarrow> string \<Rightarrow> string list" where
  "rglob_dylib w d = filter (\<lambda>p. inside d p \<and> endswith p ''.dylib'') (paths w)"

subsection \<open>otool\<close>

text \<open>
  \<open>otool -L\<close> prints the path and a colon, then one line for the install name of a
  dylib and one for each library it loads: a tab, the name, and the versions in
  brackets (the versions are not modelled and print as 1.0.0). \<open>otool -l\<close> prints the
  load commands; of each the model prints the \<open>cmd\<close> line and the line with the name
  or path. Either fails on a path that is no Mach-O binary, and
  \<open>subprocess.check_output\<close> then raises.
\<close>

definition otool_L_line :: "string \<Rightarrow> string" where
  "otool_L_line name =
     [CHR 0x09] @ name @ '' (compatibility version 1.0.0, current version 1.0.0)'' @ [LF]"

definition otool_L_body :: "macho \<Rightarrow> string" where
  "otool_L_body m =
     concat (map otool_L_line
       ((case install_id m of None \<Rightarrow> [] | Some i \<Rightarrow> [i]) @ load_deps m))"

definition otool_L_text :: "string \<Rightarrow> macho \<Rightarrow> string" where
  "otool_L_text p m = p @ '':'' @ [LF] @ otool_L_body m"

definition otool_l_name :: "string \<Rightarrow> string \<Rightarrow> string" where
  "otool_l_name cmd name =
     ''          cmd '' @ cmd @ [LF] @ ''         name '' @ name @ '' (offset 24)'' @ [LF]"

definition otool_l_rpath :: "string \<Rightarrow> string" where
  "otool_l_rpath r =
     ''          cmd LC_RPATH'' @ [LF] @ ''         path '' @ r @ '' (offset 12)'' @ [LF]"

definition otool_l_text :: "string \<Rightarrow> macho \<Rightarrow> string" where
  "otool_l_text p m =
     p @ '':'' @ [LF]
     @ (case install_id m of None \<Rightarrow> [] | Some i \<Rightarrow> otool_l_name ''LC_ID_DYLIB'' i)
     @ concat (map (otool_l_name ''LC_LOAD_DYLIB'') (load_deps m))
     @ concat (map otool_l_rpath (rpaths m))"

definition check_output ::
  "string list \<Rightarrow> (string \<Rightarrow> macho \<Rightarrow> string) \<Rightarrow> string \<Rightarrow> world
     \<Rightarrow> error \<times> world + string \<times> world" where
  "check_output cmd render p w =
     (case lookup w p of
        Some (Bin m) \<Rightarrow> Inr (render p m, record_event (Exec cmd) w)
      | _ \<Rightarrow> Inl (CalledProcessError cmd, record_event (Exec cmd) w))"

subsection \<open>install\_name\_tool\<close>

text \<open>
  \<open>-id\<close> sets the install name of a dylib and is ignored on any other binary;
  \<open>-change old new\<close> renames the loaded libraries called \<open>old\<close> and is ignored when
  there is none; \<open>-add_rpath\<close> fails when the binary has the path already. \<open>run\<close>
  checks the exit status, so a failure of the tool raises.
\<close>

datatype tool_op = SetId string | Change string string | AddRpath string

fun tool_args :: "tool_op \<Rightarrow> string list" where
  "tool_args (SetId new) = [''-id'', new]"
| "tool_args (Change old new) = [''-change'', old, new]"
| "tool_args (AddRpath r) = [''-add_rpath'', r]"

fun tool_effect :: "tool_op \<Rightarrow> macho \<Rightarrow> macho option" where
  "tool_effect (SetId new) m =
     Some (case install_id m of None \<Rightarrow> m | Some i \<Rightarrow> m\<lparr>install_id := Some new\<rparr>)"
| "tool_effect (Change old new) m =
     Some (m\<lparr>load_deps := map (\<lambda>d. if d = old then new else d) (load_deps m)\<rparr>)"
| "tool_effect (AddRpath r) m =
     (if r \<in> set (rpaths m) then None else Some (m\<lparr>rpaths := rpaths m @ [r]\<rparr>))"

definition install_name_tool :: "tool_op \<Rightarrow> string \<Rightarrow> world \<Rightarrow> outcome" where
  "install_name_tool op p w =
     (let cmd = ''install_name_tool'' # tool_args op @ [p]; w1 = record_event (Exec cmd) w
      in case lookup w p of
           Some (Bin m) \<Rightarrow>
             (case tool_effect op m of
                None \<Rightarrow> Inl (CalledProcessError cmd, w1)
              | Some m' \<Rightarrow> Inr (put p (Bin m') w1))
         | _ \<Rightarrow> Inl (CalledProcessError cmd, w1))"

section \<open>The helper functions of the script\<close>

definition otool_deps :: "string \<Rightarrow> world \<Rightarrow> error \<times> world + string list \<times> world" where
  "otool_deps path w =
     (case check_output [''otool'', ''-L'', path] otool_L_text path w of
        Inl e \<Rightarrow> Inl e
      | Inr (out, w') \<Rightarrow> Inr (otool_deps_of out, w'))"

text \<open>
  \<open>framework_name\<close>: the first part of the path that ends in \<open>.framework\<close>, without
  that suffix; \<open>None\<close> when there is no such part.
\<close>

fun framework_name_loop :: "string list \<Rightarrow> string option" where
  "framework_name_loop [] = None"
| "framework_name_loop (part # parts) =
     (if endswith part ''.framework''
      then Some (take (length part - length ''.framework'') part)
      else framework_name_loop parts)"

definition framework_name :: "string \<Rightarrow> string option" where
  "framework_name dep = framework_name_loop (split CHR ''/'' dep)"

definition has_rpath_text :: "string \<Rightarrow> string \<Rightarrow> bool" where
  "has_rpath_text out rpath \<longleftrightarrow> contains out (''path '' @ rpath @ '' '')"

definition add_rpath_if_missing :: "string \<Rightarrow> string \<Rightarrow> world \<Rightarrow> outcome" where
  "add_rpath_if_missing binpath rpath w =
     (case check_output [''otool'', ''-l'', binpath] otool_l_text binpath w of
        Inl e \<Rightarrow> Inl e
      | Inr (out, w') \<Rightarrow>
          if has_rpath_text out rpath then Inr w'
          else install_name_tool (AddRpath rpath) binpath w')"

definition set_id :: "string \<Rightarrow> string \<Rightarrow> world \<Rightarrow> outcome" where
  "set_id binpath new_id w = install_name_tool (SetId new_id) binpath w"

section \<open>bundle\<close>

definition QT_FRAMEWORKS :: "string list" where
  "QT_FRAMEWORKS = [''QtCore'', ''QtGui'', ''QtWidgets'', ''QtNetwork'', ''QtDBus'', ''QtPrintSupport'']"

definition QT_PLUGIN_SUBDIRS :: "string list" where
  "QT_PLUGIN_SUBDIRS = [''platforms'', ''styles'', ''imageformats'', ''iconengines'']"

text \<open>
  The parameters of \<open>bundle\<close> are \<open>pathlib\<close> paths; each field holds \<open>str\<close> of the path.
\<close>

record args =
  bundle_dir :: string
  plugin_bin :: string
  qt_prefix :: string
  gimp_app :: string
  macports_prefix :: string

definition frameworks_dir :: "args \<Rightarrow> string" where
  "frameworks_dir a = joinpath (bundle_dir a) ''Frameworks''"

definition plugins_dir :: "args \<Rightarrow> string" where
  "plugins_dir a = joinpath (frameworks_dir a) ''plugins''"

definition lib_dir :: "args \<Rightarrow> string" where
  "lib_dir a = joinpath (frameworks_dir a) ''lib''"

definition qt_lib_dir :: "args \<Rightarrow> string" where
  "qt_lib_dir a = joinpath (qt_prefix a) ''lib''"

definition qt_plugins_dir :: "args \<Rightarrow> string" where
  "qt_plugins_dir a = joinpath (qt_prefix a) ''plugins''"

definition explicit_libs :: "args \<Rightarrow> string list" where
  "explicit_libs a =
     [joinpath (macports_prefix a) ''lib/libfftw3.3.dylib'',
      joinpath (macports_prefix a) ''lib/libfftw3_threads.3.dylib'',
      joinpath (macports_prefix a) ''lib/libomp/libomp.dylib'',
      joinpath (macports_prefix a) ''lib/libdbus-1.3.dylib'',
      joinpath (gimp_app a) ''Contents/Resources/lib/libpng16.16.dylib'',
      joinpath (gimp_app a) ''Contents/Resources/lib/libz.1.dylib'',
      joinpath (gimp_app a) ''Contents/Resources/lib/libcurl.4.dylib'']"

definition fw_bin :: "args \<Rightarrow> string \<Rightarrow> string" where
  "fw_bin a name = joinpath (frameworks_dir a) (name @ ''.framework/Versions/5/'' @ name)"

text \<open>A \<open>for\<close> loop whose body only changes the world; an exception ends it.\<close>

fun for_each :: "('a \<Rightarrow> world \<Rightarrow> outcome) \<Rightarrow> 'a list \<Rightarrow> world \<Rightarrow> outcome" where
  "for_each body [] w = Inr w"
| "for_each body (x # xs) w = and_then (body x w) (for_each body xs)"

definition print_stderr :: "string \<Rightarrow> world \<Rightarrow> world" where
  "print_stderr msg w = w\<lparr>stderr := stderr w @ [msg]\<rparr>"

subsection \<open>Copy Qt frameworks, Qt plugins, write qt.conf\<close>

definition fw_src :: "args \<Rightarrow> string \<Rightarrow> string" where
  "fw_src a name = joinpath (qt_lib_dir a) (name @ ''.framework'')"

definition fw_dst :: "args \<Rightarrow> string \<Rightarrow> string" where
  "fw_dst a name = joinpath (frameworks_dir a) (name @ ''.framework'')"

definition copy_qt_framework :: "args \<Rightarrow> string \<Rightarrow> world \<Rightarrow> outcome" where
  "copy_qt_framework a name w =
     (let src = fw_src a name; dst = fw_dst a name
      in if \<not> exists w src
         then Inl (SystemExit 1, print_stderr (''Missing Qt framework: '' @ src) w)
         else and_then (if exists w dst then rmtree dst w else Inr w) (copytree src dst))"

definition copy_qt_plugin_dir :: "args \<Rightarrow> string \<Rightarrow> world \<Rightarrow> outcome" where
  "copy_qt_plugin_dir a sub w =
     (let src = joinpath (qt_plugins_dir a) sub; dst = joinpath (plugins_dir a) sub
      in if exists w src
         then and_then (if exists w dst then rmtree dst w else Inr w) (copytree src dst)
         else Inr w)"

definition write_qt_conf :: "args \<Rightarrow> world \<Rightarrow> outcome" where
  "write_qt_conf a w =
     write_text (joinpath (bundle_dir a) ''qt.conf'')
       (''[Paths]'' @ [LF] @ ''Plugins = Frameworks/plugins'' @ [LF]) w"

subsection \<open>Collect the initial set of binaries\<close>

text \<open>
  The Python set \<open>binaries\<close> is a list without repetition, in the order of insertion.
  Iterating over a set, as \<open>list(binaries)\<close> does, goes through the elements in an order
  that depends on their hashes, and the hash of a path changes from one run of the
  interpreter to the next. So \<open>list(binaries)\<close> is \<open>order binaries\<close> for a function \<open>order\<close>
  that \<open>bundle\<close> takes as a parameter: the order in which this run lists a set.
\<close>

definition set_add :: "string \<Rightarrow> string list \<Rightarrow> string list" where
  "set_add x xs = (if x \<in> set xs then xs else xs @ [x])"

definition initial_binaries :: "args \<Rightarrow> world \<Rightarrow> string list" where
  "initial_binaries a w =
     fold set_add
       (filter (exists w) (map (fw_bin a) QT_FRAMEWORKS) @ rglob_dylib w (plugins_dir a))
       [plugin_bin a]"

subsection \<open>Copy explicit libs\<close>

text \<open>\<open>dst = lib_dir / src.name\<close>, here and in the walk.\<close>

definition lib_dst :: "args \<Rightarrow> string \<Rightarrow> string" where
  "lib_dst a src = joinpath (lib_dir a) (path_name src)"

definition copy_explicit_lib :: "args \<Rightarrow> string \<Rightarrow> world \<Rightarrow> outcome" where
  "copy_explicit_lib a src w =
     (if exists w src
      then (let dst = lib_dst a src
            in if \<not> exists w dst then copy2 src dst w else Inr w)
      else Inr w)"

subsection \<open>Gather the transitive dependencies under the MacPorts prefix\<close>

text \<open>
  The \<open>for dep in otool_deps(item)\<close> loop inside the \<open>while\<close> loop: it changes the files
  and appends to the queue. The tests are made on the string \<open>dep\<close>; what is copied is
  the path \<open>Path(dep)\<close>. The set \<open>seen\<close> of the script is only ever added to, never
  tested, and is left out.
\<close>

definition copied_by_walk :: "args \<Rightarrow> string \<Rightarrow> bool" where
  "copied_by_walk a dep \<longleftrightarrow>
     \<not> startswith dep ''@'' \<and> \<not> startswith dep (gimp_app a)
     \<and> \<not> (startswith dep ''/System'' \<or> startswith dep ''/usr/lib'')
     \<and> startswith dep (macports_prefix a) \<and> endswith dep ''.dylib''"

fun gather :: "args \<Rightarrow> string list \<Rightarrow> world \<Rightarrow> string list
    \<Rightarrow> error \<times> world + world \<times> string list" where
  "gather a [] w queue = Inr (w, queue)"
| "gather a (dep # deps) w queue =
     (if startswith dep ''@'' then gather a deps w queue
      else if startswith dep (gimp_app a) then gather a deps w queue
      else if startswith dep ''/System'' \<or> startswith dep ''/usr/lib'' then gather a deps w queue
      else if startswith dep (macports_prefix a) \<and> endswith dep ''.dylib''
      then (let src = Path dep; dst = lib_dst a src
            in if \<not> exists w dst
               then (case copy2 src dst w of
                       Inl e \<Rightarrow> Inl e
                     | Inr w' \<Rightarrow> gather a deps w' (queue @ [dst]))
               else gather a deps w queue)
      else gather a deps w queue)"

section \<open>Facts about paths\<close>

lemma split_from_plain: "sep \<notin> set s \<Longrightarrow> split_from sep cur s = [rev cur @ s]"
  by (induction s arbitrary: cur) auto

lemma split_from_append:
  "split_from sep cur (xs @ sep # ys) = split_from sep cur xs @ split_from sep [] ys"
  by (induction xs arbitrary: cur) auto

lemma split_from_nonempty: "split_from sep cur s \<noteq> []"
  by (induction s arbitrary: cur) auto

lemma split_from_elems:
  "x \<in> set (split_from sep cur s) \<Longrightarrow> sep \<notin> set cur \<Longrightarrow> sep \<notin> set x \<and> set x \<subseteq> set cur \<union> set s"
proof (induction s arbitrary: cur)
  case Nil
  then show ?case by auto
next
  case (Cons c s)
  show ?case
  proof (cases "c = sep")
    case True
    with Cons.prems have "x = rev cur \<or> x \<in> set (split_from sep [] s)" by simp
    then show ?thesis
    proof
      assume "x = rev cur" with Cons.prems show ?thesis by auto
    next
      assume "x \<in> set (split_from sep [] s)"
      from Cons.IH[OF this] show ?thesis by auto
    qed
  next
    case False
    with Cons.prems have "x \<in> set (split_from sep (c # cur) s)" by simp
    from Cons.IH[OF this] False Cons.prems(2) show ?thesis by auto
  qed
qed

lemma last_split_from:
  "last (split_from sep cur s)
     = (if sep \<in> set s then rev (takeWhile (\<lambda>c. c \<noteq> sep) (rev s)) else rev cur @ s)"
proof (induction s arbitrary: cur)
  case Nil
  then show ?case by simp
next
  case (Cons c s)
  show ?case
  proof (cases "c = sep")
    case True
    then show ?thesis
      using Cons[of "[]"] split_from_nonempty[of sep "[]" s]
      by (auto simp: takeWhile_append takeWhile_eq_all_conv[THEN iffD2])
  next
    case False
    then show ?thesis using Cons[of "c # cur"]
      by (auto simp: takeWhile_append)
  qed
qed

lemma last_split: "last (split CHR ''/'' s) = basename s"
proof (cases "CHR ''/'' \<in> set s")
  case True
  then show ?thesis by (simp add: split_def last_split_from basename_def)
next
  case False
  then have eq: "takeWhile (\<lambda>c. c \<noteq> CHR ''/'') (rev s) = rev s"
    by (intro takeWhile_eq_all_conv[THEN iffD2]) auto
  show ?thesis unfolding split_def last_split_from basename_def eq using False by simp
qed

lemma path_parts_are_parts: "list_all is_part (path_parts s)"
  unfolding path_parts_def list_all_iff is_part_def split_def
  using split_from_elems[of _ "CHR ''/''" "[]" s] by auto

lemma path_root_is_root: "is_root (path_root s)"
  by (simp add: path_root_def is_root_def)

lemma split_part: "is_part x \<Longrightarrow> split CHR ''/'' x = [x]"
  by (simp add: is_part_def split_def split_from_plain)

lemma join_parts_Cons: "qs \<noteq> [] \<Longrightarrow> join_parts (q # qs) = q @ ''/'' @ join_parts qs"
  by (cases qs) auto

lemma join_parts_snoc: "qs \<noteq> [] \<Longrightarrow> join_parts (qs @ [x]) = join_parts qs @ ''/'' @ x"
  by (induction qs rule: join_parts.induct) (auto simp: join_parts_Cons)

lemma join_parts_append:
  "qs \<noteq> [] \<Longrightarrow> ps \<noteq> [] \<Longrightarrow> join_parts (qs @ ps) = join_parts qs @ ''/'' @ join_parts ps"
  by (induction qs rule: join_parts.induct) (auto simp: join_parts_Cons)

lemma split_join_parts:
  "list_all is_part qs \<Longrightarrow> qs \<noteq> [] \<Longrightarrow> split CHR ''/'' (join_parts qs) = qs"
proof (induction qs rule: join_parts.induct)
  case 1
  then show ?case by simp
next
  case (2 part)
  then show ?case by (simp add: split_part)
next
  case (3 part q qs)
  have "split_from CHR ''/'' [] (part @ CHR ''/'' # join_parts (q # qs))
      = split_from CHR ''/'' [] part @ split_from CHR ''/'' [] (join_parts (q # qs))"
    by (rule split_from_append)
  with 3 show ?case using split_part[of part] by (simp add: split_def)
qed

lemma join_parts_hd:
  "list_all is_part qs \<Longrightarrow> qs \<noteq> [] \<Longrightarrow> join_parts qs \<noteq> [] \<and> hd (join_parts qs) \<noteq> CHR ''/''"
  by (induction qs rule: join_parts.induct) (auto simp: is_part_def neq_Nil_conv)

lemma parts_of_render:
  assumes "is_root r" "list_all is_part qs"
  shows "path_parts (render_path r qs) = qs"
proof (cases "qs = []")
  case True
  with assms(1) show ?thesis
    by (auto simp: render_path_def is_root_def path_parts_def split_def)
next
  case False
  have f: "filter (\<lambda>part. part \<noteq> [] \<and> part \<noteq> ''.'') qs = qs"
    using assms(2) by (auto simp: list_all_iff is_part_def intro!: filter_True)
  have s: "split CHR ''/'' (join_parts qs) = qs" using assms(2) False by (rule split_join_parts)
  have 1: "split CHR ''/'' (''/'' @ join_parts qs) = [] # qs"
    using split_from_append[of "CHR ''/''" "[]" "[]" "join_parts qs"] s by (simp add: split_def)
  have 2: "split CHR ''/'' (''//'' @ join_parts qs) = [] # [] # qs"
    using split_from_append[of "CHR ''/''" "[]" "[]" "''/'' @ join_parts qs"] 1 by (simp add: split_def)
  from assms(1) consider "r = []" | "r = ''/''" | "r = ''//''" by (auto simp: is_root_def)
  then show ?thesis
  proof cases
    case 1
    with False s f show ?thesis by (simp add: render_path_def path_parts_def)
  next
    case 2
    with False 1 f show ?thesis by (simp add: render_path_def path_parts_def)
  next
    case 3
    with False 2 f show ?thesis by (simp add: render_path_def path_parts_def)
  qed
qed

lemma root_of_render:
  assumes "is_root r" "list_all is_part qs"
  shows "path_root (render_path r qs) = r"
proof (cases "qs = []")
  case True
  with assms(1) show ?thesis
    by (auto simp: render_path_def is_root_def path_root_def startswith_def)
next
  case False
  from join_parts_hd[OF assms(2) False] obtain c cs where
    j: "join_parts qs = c # cs" "c \<noteq> CHR ''/''" by (auto simp: neq_Nil_conv)
  from assms(1) consider "r = []" | "r = ''/''" | "r = ''//''" by (auto simp: is_root_def)
  then show ?thesis
    using False j by cases (auto simp: render_path_def path_root_def startswith_def)
qed

lemma normal_render:
  "is_root r \<Longrightarrow> list_all is_part qs \<Longrightarrow> qs \<noteq> [] \<Longrightarrow> normal (render_path r qs)"
  unfolding normal_def render_path_def by auto

lemma normalE:
  assumes "normal p"
  obtains r qs where "is_root r" "list_all is_part qs" "qs \<noteq> []" "p = render_path r qs"
  using assms unfolding normal_def render_path_def by auto

lemma not_startswith_part: "is_part n \<Longrightarrow> \<not> startswith n ''/''"
  by (auto simp: is_part_def startswith_def prefix_def)

lemma path_parts_part: "is_part n \<Longrightarrow> path_parts n = [n]"
  by (simp add: path_parts_def split_part) (simp add: is_part_def)

lemma joinpath_part_normal: "is_part n \<Longrightarrow> normal (joinpath p n)"
  using path_parts_are_parts[of p] path_root_is_root[of p]
  by (auto simp: joinpath_def not_startswith_part path_parts_part intro!: normal_render)

lemma joinpath_normal:
  assumes "normal p" "\<not> startswith n ''/''" "path_parts n \<noteq> []"
  shows "joinpath p n = p @ ''/'' @ join_parts (path_parts n)"
proof -
  from assms(1) obtain r qs where
    r: "is_root r" "list_all is_part qs" "qs \<noteq> []" "p = render_path r qs" by (rule normalE)
  have "joinpath p n = render_path r (qs @ path_parts n)"
    using assms(2) r by (simp add: joinpath_def parts_of_render root_of_render)
  also have "\<dots> = r @ join_parts (qs @ path_parts n)"
    using r(3) by (simp add: render_path_def)
  also have "\<dots> = p @ ''/'' @ join_parts (path_parts n)"
    using r(3,4) assms(3) by (simp add: join_parts_append render_path_def)
  finally show ?thesis .
qed

lemma joinpath_part: "normal p \<Longrightarrow> is_part n \<Longrightarrow> joinpath p n = p @ ''/'' @ n"
  using joinpath_normal[of p n] by (simp add: not_startswith_part path_parts_part)

lemma path_parent_joinpath:
  assumes "normal p" "is_part n"
  shows "path_parent (joinpath p n) = p"
proof -
  from assms(1) obtain r qs where
    r: "is_root r" "list_all is_part qs" "qs \<noteq> []" "p = render_path r qs" by (rule normalE)
  have j: "joinpath p n = render_path r (qs @ [n])"
    using assms(2) r by (simp add: joinpath_def parts_of_render root_of_render
        not_startswith_part path_parts_part)
  have "list_all is_part (qs @ [n])" using r(2) assms(2) by simp
  then show ?thesis
    unfolding path_parent_def j using r by (simp add: parts_of_render root_of_render)
qed


lemma path_parts_Path: "path_parts (Path s) = path_parts s"
  unfolding Path_def by (rule parts_of_render[OF path_root_is_root path_parts_are_parts])

lemma path_name_Path: "path_name (Path s) = path_name s"
  by (simp add: path_name_def path_parts_Path)

lemma set_basename: "set (basename d) \<subseteq> set d"
  unfolding basename_def by (auto dest: set_takeWhileD)

lemma slash_notin_basename: "CHR ''/'' \<notin> set (basename d)"
  unfolding basename_def by (auto dest: set_takeWhileD)

lemma endswith_basename:
  assumes "endswith d ''.dylib''"
  shows "endswith (basename d) ''.dylib''"
proof -
  from assms obtain u where u: "d = u @ ''.dylib''" by (auto simp: endswith_def suffix_def)
  have "takeWhile (\<lambda>c. c \<noteq> CHR ''/'') (rev ''.dylib'' @ rev u)
      = rev ''.dylib'' @ takeWhile (\<lambda>c. c \<noteq> CHR ''/'') (rev u)"
    by (subst takeWhile_append2) auto
  then have "basename d = basename u @ ''.dylib''"
    unfolding basename_def u by simp
  then show ?thesis by (simp add: endswith_def suffix_def)
qed

lemma dylib_is_part:
  assumes "endswith d ''.dylib''"
  shows "is_part (basename d)"
proof -
  from endswith_basename[OF assms] obtain u where "basename d = u @ ''.dylib''"
    by (auto simp: endswith_def suffix_def)
  then have "basename d \<noteq> []" "basename d \<noteq> ''.''" by auto
  then show ?thesis using slash_notin_basename[of d] by (simp add: is_part_def)
qed

lemma path_name_dylib:
  assumes "endswith d ''.dylib''"
  shows "path_name d = basename d"
proof -
  have ne: "split CHR ''/'' d \<noteq> []" by (simp add: split_def split_from_nonempty)
  have l: "last (split CHR ''/'' d) = basename d" by (rule last_split)
  have p: "basename d \<noteq> [] \<and> basename d \<noteq> ''.''"
    using dylib_is_part[OF assms] by (simp add: is_part_def)
  obtain ys where ys: "split CHR ''/'' d = ys @ [basename d]"
    using ne l by (metis append_butlast_last_id)
  show ?thesis
    unfolding path_name_def path_parts_def ys using p by simp
qed

lemma lib_dir_normal: "normal (lib_dir a)"
  unfolding lib_dir_def by (rule joinpath_part_normal) (simp add: is_part_def)

lemma frameworks_dir_normal: "normal (frameworks_dir a)"
  unfolding frameworks_dir_def by (rule joinpath_part_normal) (simp add: is_part_def)


lemma lib_dst_part: "is_part (path_name src) \<Longrightarrow> lib_dst a src = lib_dir a @ ''/'' @ path_name src"
  unfolding lib_dst_def by (rule joinpath_part[OF lib_dir_normal])

lemma lib_dst_parent: "is_part (path_name src) \<Longrightarrow> path_parent (lib_dst a src) = lib_dir a"
  unfolding lib_dst_def by (rule path_parent_joinpath[OF lib_dir_normal])

lemma lib_dst_dylib:
  assumes "endswith dep ''.dylib''"
  shows "lib_dst a (Path dep) = lib_dir a @ ''/'' @ basename dep"
    and "path_parent (lib_dst a (Path dep)) = lib_dir a"
    and "path_name (Path dep) = basename dep"
proof -
  show n: "path_name (Path dep) = basename dep"
    by (simp add: path_name_Path path_name_dylib[OF assms])
  then have "is_part (path_name (Path dep))" using dylib_is_part[OF assms] by simp
  from lib_dst_part[OF this] lib_dst_parent[OF this] n
  show "lib_dst a (Path dep) = lib_dir a @ ''/'' @ basename dep"
    and "path_parent (lib_dst a (Path dep)) = lib_dir a" by simp_all
qed

section \<open>The while loop of the walk\<close>

text \<open>
  The loop ends because every pass either copies a file to a name in \<open>Frameworks/lib\<close>
  that did not exist, or shortens the queue; and the names it can ever copy to are the
  base names of the paths that \<open>otool_deps\<close> reports for some binary of the file
  system, a finite set that copying does not enlarge. The lemmas below establish this
  for every text \<open>otool -L\<close> can print, also for paths with line boundaries in them.
\<close>

lemma deps_loop_map: "deps_loop deps ls = deps @ map dep_of_line ls"
  by (induction ls arbitrary: deps) auto

lemma dep_of_line_takeWhile:
  "dep_of_line line = takeWhile (\<lambda>c. c \<noteq> CHR '' '') (strip line)"
proof (cases "CHR '' '' \<in> set (strip line)")
  case True
  then show ?thesis by (simp add: dep_of_line_def split1_def)
next
  case False
  then have eq: "takeWhile (\<lambda>c. c \<noteq> CHR '' '') (strip line) = strip line"
    by (intro takeWhile_eq_all_conv[THEN iffD2]) auto
  show ?thesis unfolding dep_of_line_def split1_def eq using False by simp
qed

lemma linebreak_facts:
  "is_linebreak LF" "is_linebreak CR" "LF \<noteq> CR"
  by (simp_all add: is_linebreak_def LF_def CR_def)

lemma splitlines_from_plain:
  "\<forall>c\<in>set t. \<not> is_linebreak c \<Longrightarrow>
   splitlines_from cur t = (if rev cur @ t = [] then [] else [rev cur @ t])"
proof (induction t arbitrary: cur)
  case Nil
  then show ?case by simp
next
  case (Cons c t)
  then have "\<not> is_linebreak c" by simp
  moreover then have "c \<noteq> CR" by (auto simp: is_linebreak_def CR_def)
  ultimately show ?case using Cons by simp
qed

lemma splitlines_from_append_plain:
  "\<exists>L u. \<forall>t. (\<forall>c\<in>set t. \<not> is_linebreak c) \<and> t \<noteq> [] \<longrightarrow>
      splitlines_from cur (x @ t) = L @ [u @ t]"
proof (induction cur x rule: splitlines_from.induct)
  case (1 cur)
  have "\<forall>t. (\<forall>c\<in>set t. \<not> is_linebreak c) \<and> t \<noteq> [] \<longrightarrow>
      splitlines_from cur ([] @ t) = [] @ [rev cur @ t]"
    by (simp add: splitlines_from_plain)
  then show ?case by blast
next
  case (2 cur c cs)
  have LFb: "is_linebreak LF" by (simp add: is_linebreak_def LF_def)
  have hd_eq: "\<And>t. (\<forall>c\<in>set t. \<not> is_linebreak c) \<Longrightarrow> t \<noteq> [] \<Longrightarrow>
     (cs @ t \<noteq> [] \<and> hd (cs @ t) = LF) = (cs \<noteq> [] \<and> hd cs = LF)"
    using LFb by (cases cs) (auto simp: neq_Nil_conv)
  show ?case
  proof (cases "c = CR \<and> cs \<noteq> [] \<and> hd cs = LF")
    case True
    from 2(1)[OF True] obtain L u where
      h: "\<forall>t. (\<forall>c\<in>set t. \<not> is_linebreak c) \<and> t \<noteq> [] \<longrightarrow>
            splitlines_from [] (tl cs @ t) = L @ [u @ t]" by blast
    have "\<forall>t. (\<forall>c\<in>set t. \<not> is_linebreak c) \<and> t \<noteq> [] \<longrightarrow>
            splitlines_from cur ((c # cs) @ t) = (rev cur # L) @ [u @ t]"
      using True h hd_eq by (auto simp: neq_Nil_conv)
    then show ?thesis by blast
  next
    case False
    show ?thesis
    proof (cases "is_linebreak c")
      case True
      from 2(2)[OF False True] obtain L u where
        h: "\<forall>t. (\<forall>c\<in>set t. \<not> is_linebreak c) \<and> t \<noteq> [] \<longrightarrow>
            splitlines_from [] (cs @ t) = L @ [u @ t]" by blast
      have "\<forall>t. (\<forall>c\<in>set t. \<not> is_linebreak c) \<and> t \<noteq> [] \<longrightarrow>
            splitlines_from cur ((c # cs) @ t) = (rev cur # L) @ [u @ t]"
        using True False h hd_eq by auto
      then show ?thesis by blast
    next
      case nb: False
      from 2(3)[OF False nb] obtain L u where
        h: "\<forall>t. (\<forall>c\<in>set t. \<not> is_linebreak c) \<and> t \<noteq> [] \<longrightarrow>
            splitlines_from (c # cur) (cs @ t) = L @ [u @ t]" by blast
      have "\<forall>t. (\<forall>c\<in>set t. \<not> is_linebreak c) \<and> t \<noteq> [] \<longrightarrow>
            splitlines_from cur ((c # cs) @ t) = L @ [u @ t]"
        using nb False h hd_eq by auto
      then show ?thesis by blast
    qed
  qed
qed

lemma splitlines_from_header:
  "x \<noteq> [] \<Longrightarrow> \<not> is_linebreak (last x) \<Longrightarrow>
   splitlines_from cur (x @ LF # body) = splitlines_from cur x @ splitlines_from [] body"
proof (induction cur x rule: splitlines_from.induct)
  case (1 cur)
  then show ?case by simp
next
  case (2 cur c cs)
  have LFb: "is_linebreak LF" "LF \<noteq> CR" by (simp_all add: is_linebreak_def LF_def CR_def)
  show ?case
  proof (cases "cs = []")
    case True
    with 2(4,5) LFb linebreak_facts show ?thesis by auto
  next
    case ne: False
    then have l: "\<not> is_linebreak (last cs)" using 2(5) by simp
    show ?thesis
    proof (cases "c = CR \<and> cs \<noteq> [] \<and> hd cs = LF")
      case True
      then have "tl cs \<noteq> []" using l LFb by (cases cs) (auto split: if_splits)
      moreover then have "last (tl cs) = last cs" by (simp add: last_tl)
      ultimately show ?thesis using True 2(1)[OF True] l ne by (auto simp: neq_Nil_conv)
    next
      case False
      then show ?thesis using 2(2,3) l ne by (auto simp: neq_Nil_conv)
    qed
  qed
qed


lemma splitlines_from_no_linebreak:
  "\<forall>c\<in>set cur. \<not> is_linebreak c \<Longrightarrow> l \<in> set (splitlines_from cur s) \<Longrightarrow>
   \<forall>c\<in>set l. \<not> is_linebreak c"
proof (induction cur s rule: splitlines_from.induct)
  case (1 cur)
  then show ?case by (auto split: if_splits)
next
  case (2 cur c cs)
  show ?case
  proof (cases "c = CR \<and> cs \<noteq> [] \<and> hd cs = LF")
    case True
    with 2(5) have "l = rev cur \<or> l \<in> set (splitlines_from [] (tl cs))" by simp
    then show ?thesis using 2(1)[OF True] 2(4) by auto
  next
    case False
    show ?thesis
    proof (cases "is_linebreak c")
      case True
      with False 2(5) have "l = rev cur \<or> l \<in> set (splitlines_from [] cs)" by (auto split: if_splits)
      then show ?thesis using 2(2)[OF False True] 2(4) by auto
    next
      case nb: False
      with False 2(5) have "l \<in> set (splitlines_from (c # cur) cs)" by (auto split: if_splits)
      then show ?thesis using 2(3)[OF False nb] 2(4) nb by auto
    qed
  qed
qed


definition hdr_deps :: "string \<Rightarrow> string list" where
  "hdr_deps p = map dep_of_line (tl (splitlines (p @ '':'')))"

definition body_deps :: "macho \<Rightarrow> string list" where
  "body_deps m = map dep_of_line (splitlines (otool_L_body m))"

lemma not_linebreak_colon: "\<not> is_linebreak CHR '':''" "\<not> is_linebreak CHR ''/''"
  by (simp_all add: is_linebreak_def)

lemma splitlines_header_nonempty: "splitlines (p @ '':'') \<noteq> []"
proof -
  obtain L u where "\<forall>t. (\<forall>c\<in>set t. \<not> is_linebreak c) \<and> t \<noteq> [] \<longrightarrow>
      splitlines_from [] (p @ t) = L @ [u @ t]"
    using splitlines_from_append_plain by blast
  then have "splitlines_from [] (p @ '':'') = L @ [u @ '':'']"
    using not_linebreak_colon by simp
  then show ?thesis by (simp add: splitlines_def)
qed

lemma otool_deps_of_text: "otool_deps_of (otool_L_text p m) = hdr_deps p @ body_deps m"
proof -
  have "splitlines ((p @ '':'') @ LF # otool_L_body m)
        = splitlines (p @ '':'') @ splitlines (otool_L_body m)"
    unfolding splitlines_def
    by (rule splitlines_from_header) (simp_all add: not_linebreak_colon)
  moreover obtain x xs where "splitlines (p @ '':'') = x # xs"
    using splitlines_header_nonempty[of p] by (auto simp: neq_Nil_conv)
  ultimately show ?thesis
    by (simp add: otool_deps_of_def otool_L_text_def deps_loop_map hdr_deps_def body_deps_def)
qed

lemma set_strip: "set (strip l) \<subseteq> set l"
  unfolding strip_def by (auto dest!: set_dropWhileD)

lemma dep_of_line_chars: "set (dep_of_line l) \<subseteq> set l - {CHR '' ''}"
  unfolding dep_of_line_takeWhile using set_strip[of l] by (auto dest: set_takeWhileD)

lemma line_token_plain:
  assumes "l \<in> set (splitlines s)"
  shows "CHR '' '' \<notin> set (dep_of_line l) \<and> (\<forall>c\<in>set (dep_of_line l). \<not> is_linebreak c)"
proof -
  have "\<forall>c\<in>set l. \<not> is_linebreak c"
    using splitlines_from_no_linebreak[of "[]" l s] assms by (simp add: splitlines_def)
  then show ?thesis using dep_of_line_chars[of l] by auto
qed

lemma strip_header_line:
  "strip (u @ ''/'' @ n @ '':'') = dropWhile is_space u @ ''/'' @ n @ '':''"
proof -
  have ns: "\<not> is_space CHR ''/''" "\<not> is_space CHR '':''" by (simp_all add: is_space_def)
  have 1: "dropWhile is_space (u @ ''/'' @ n @ '':'') = dropWhile is_space u @ ''/'' @ n @ '':''"
    using ns by (simp add: dropWhile_append)
  show ?thesis unfolding strip_def 1 using ns by simp
qed

lemma header_token:
  assumes "CHR '' '' \<notin> set n" and "endswith (dep_of_line (u @ ''/'' @ n @ '':'')) ''.dylib''"
  shows "dep_of_line (u @ ''/'' @ n @ '':'') = dep_of_line (u @ ''/'' @ [] @ '':'')"
proof (cases "CHR '' '' \<in> set (dropWhile is_space u)")
  case True
  then show ?thesis
    unfolding dep_of_line_takeWhile strip_header_line by (simp add: takeWhile_append1)
next
  case False
  have "takeWhile (\<lambda>c. c \<noteq> CHR '' '') (dropWhile is_space u @ ''/'' @ n @ '':'')
        = dropWhile is_space u @ ''/'' @ n @ '':''"
    using False assms(1) by (intro takeWhile_eq_all_conv[THEN iffD2]) auto
  then have "dep_of_line (u @ ''/'' @ n @ '':'') = (dropWhile is_space u @ ''/'' @ n) @ '':''"
    unfolding dep_of_line_takeWhile strip_header_line by simp
  with assms(2) obtain zs where
    "(dropWhile is_space u @ ''/'' @ n) @ '':'' = zs @ ''.dylib''"
    unfolding endswith_def suffix_def by auto
  then have "last ((dropWhile is_space u @ ''/'' @ n) @ '':'') = last (zs @ ''.dylib'')"
    by simp
  then have False by simp
  then show ?thesis ..
qed


lemma hdr_deps_lib:
  assumes n: "CHR '' '' \<notin> set n" "\<forall>c\<in>set n. \<not> is_linebreak c"
    and d: "d \<in> set (hdr_deps (lib @ ''/'' @ n))" "endswith d ''.dylib''"
  shows "d \<in> set (hdr_deps (lib @ ''/''))"
proof -
  obtain L u where Lu: "\<forall>t. (\<forall>c\<in>set t. \<not> is_linebreak c) \<and> t \<noteq> [] \<longrightarrow>
      splitlines_from [] (lib @ t) = L @ [u @ t]"
    using splitlines_from_append_plain by blast
  have 1: "splitlines ((lib @ ''/'' @ n) @ '':'') = L @ [u @ ''/'' @ n @ '':'']"
    using Lu[rule_format, of "''/'' @ n @ '':''"] n(2) not_linebreak_colon
    by (simp add: splitlines_def)
  have 2: "splitlines ((lib @ ''/'') @ '':'') = L @ [u @ ''/'' @ [] @ '':'']"
    using Lu[rule_format, of "''/'' @ '':''"] not_linebreak_colon
    by (simp add: splitlines_def)
  show ?thesis
  proof (cases L)
    case Nil
    with d(1) 1 show ?thesis by (simp add: hdr_deps_def)
  next
    case (Cons l ls)
    with d(1) 1 have "d \<in> dep_of_line ` set ls \<or> d = dep_of_line (u @ ''/'' @ n @ '':'')"
      by (auto simp: hdr_deps_def)
    then show ?thesis
    proof
      assume "d \<in> dep_of_line ` set ls"
      with Cons 2 show ?thesis by (auto simp: hdr_deps_def)
    next
      assume e: "d = dep_of_line (u @ ''/'' @ n @ '':'')"
      with d(2) n(1) have "d = dep_of_line (u @ ''/'' @ [] @ '':'')"
        using header_token by simp
      with Cons 2 show ?thesis by (auto simp: hdr_deps_def)
    qed
  qed
qed

definition node_cands :: "string \<Rightarrow> string \<times> node \<Rightarrow> string set" where
  "node_cands lib e =
     (case snd e of
        Bin m \<Rightarrow> set (hdr_deps (fst e)) \<union> set (hdr_deps (lib @ ''/'')) \<union> set (body_deps m)
      | _ \<Rightarrow> {})"

definition cands :: "args \<Rightarrow> world \<Rightarrow> string set" where
  "cands a w = (\<Union>e\<in>set (files w). node_cands (lib_dir a) e)"

definition missing :: "args \<Rightarrow> world \<Rightarrow> string set" where
  "missing a w =
     path_name ` {d \<in> cands a w. endswith d ''.dylib''}
       - {n. exists w (joinpath (lib_dir a) n)}"

lemma finite_cands: "finite (cands a w)"
  unfolding cands_def node_cands_def by (auto split: node.splits)

lemma finite_missing: "finite (missing a w)"
  unfolding missing_def using finite_cands by simp

lemma in_set_tl: "x \<in> set (tl xs) \<Longrightarrow> x \<in> set xs"
  by (cases xs) auto

lemma hdr_deps_plain:
  "d \<in> set (hdr_deps p) \<Longrightarrow> CHR '' '' \<notin> set d \<and> (\<forall>c\<in>set d. \<not> is_linebreak c)"
proof -
  assume "d \<in> set (hdr_deps p)"
  then obtain l where "l \<in> set (tl (splitlines (p @ '':'')))" "d = dep_of_line l"
    by (auto simp: hdr_deps_def)
  then show ?thesis using line_token_plain[of l "p @ '':''"] by (auto dest!: in_set_tl)
qed

lemma body_deps_plain:
  "d \<in> set (body_deps m) \<Longrightarrow> CHR '' '' \<notin> set d \<and> (\<forall>c\<in>set d. \<not> is_linebreak c)"
  unfolding body_deps_def using line_token_plain by auto

lemma cands_plain:
  "d \<in> cands a w \<Longrightarrow> CHR '' '' \<notin> set d \<and> (\<forall>c\<in>set d. \<not> is_linebreak c)"
  unfolding cands_def node_cands_def
  using hdr_deps_plain body_deps_plain by (fastforce split: node.splits)

lemma otool_deps_cands:
  assumes "otool_deps item w = Inr (deps, w')"
  shows "set deps \<subseteq> cands a w \<and> files w' = files w"
proof -
  from assms obtain m where m: "lookup w item = Some (Bin m)"
    and deps: "deps = otool_deps_of (otool_L_text item m)"
    and w': "w' = record_event (Exec [''otool'', ''-L'', item]) w"
    by (auto simp: otool_deps_def check_output_def split: option.splits node.splits)
  from m have "(item, Bin m) \<in> set (files w)"
    by (auto simp: lookup_def dest: map_of_SomeD)
  then have "set (hdr_deps item) \<union> set (body_deps m) \<subseteq> cands a w"
    unfolding cands_def node_cands_def by force
  with deps w' show ?thesis by (simp add: otool_deps_of_text record_event_def)
qed


lemma update_new: "map_of al k = None \<Longrightarrow> AList.update k v al = al @ [(k, v)]"
  by (induction al) auto

lemma copy2_Inr:
  assumes "copy2 src dst w = Inr w'"
  obtains n where "lookup w src = Some n" "n \<noteq> Dir" "is_dir w (path_parent dst)"
    "w' = record_event (Copy2 src dst) (put dst n w)"
  using assms unfolding copy2_def is_dir_def by (auto split: option.splits node.splits)

lemma copy2_step:
  assumes c: "copy2 (Path d) dst w = Inr w'"
    and dst: "dst = lib_dst a (Path d)"
    and new: "\<not> exists w dst"
    and d: "d \<in> cands a w" "endswith d ''.dylib''"
  shows "missing a w' \<subset> missing a w \<and> cands a w \<subseteq> cands a w'"
proof -
  from c obtain n where n: "lookup w (Path d) = Some n"
    and w': "w' = record_event (Copy2 (Path d) dst) (put dst n w)"
    by (rule copy2_Inr)
  have dst': "dst = lib_dir a @ ''/'' @ basename d" and nm: "path_name d = basename d"
    and j: "joinpath (lib_dir a) (basename d) = dst"
    using lib_dst_dylib(1)[OF d(2), of a] lib_dst_dylib(3)[OF d(2)] dst path_name_dylib[OF d(2)]
    by (simp_all add: lib_dst_def)
  from new have fs: "files w' = files w @ [(dst, n)]"
    by (simp add: w' record_event_def put_def exists_def lookup_def update_new)
  have ex: "\<And>p. exists w' p \<longleftrightarrow> exists w p \<or> p = dst"
    by (auto simp: exists_def lookup_def fs map_of_append split: option.splits)
  have mem: "(Path d, n) \<in> set (files w)"
    using n by (auto simp: lookup_def dest: map_of_SomeD)
  have c': "cands a w' = cands a w \<union> node_cands (lib_dir a) (dst, n)"
    by (auto simp: cands_def fs)
  have plain: "CHR '' '' \<notin> set (basename d)" "\<forall>c\<in>set (basename d). \<not> is_linebreak c"
    using cands_plain[OF d(1)] set_basename[of d] by auto
  have sub: "{x \<in> cands a w'. endswith x ''.dylib''} \<subseteq> {x \<in> cands a w. endswith x ''.dylib''}"
  proof
    fix x assume x: "x \<in> {x \<in> cands a w'. endswith x ''.dylib''}"
    show "x \<in> {x \<in> cands a w. endswith x ''.dylib''}"
    proof (cases "x \<in> cands a w")
      case True
      with x show ?thesis by simp
    next
      case False
      with x c' have xn: "x \<in> node_cands (lib_dir a) (dst, n)" by auto
      then obtain m where m: "n = Bin m" by (auto simp: node_cands_def split: node.splits)
      have old: "set (hdr_deps (lib_dir a @ ''/'')) \<union> set (body_deps m) \<subseteq> cands a w"
        using mem m unfolding cands_def node_cands_def by force
      with xn m False have "x \<in> set (hdr_deps dst)" by (auto simp: node_cands_def)
      then have "x \<in> set (hdr_deps (lib_dir a @ ''/''))"
        using hdr_deps_lib[OF plain, of x "lib_dir a"] x by (simp add: dst')
      with old False show ?thesis by auto
    qed
  qed
  have "path_name d \<in> path_name ` {d \<in> cands a w. endswith d ''.dylib''}"
    using d by blast
  then have bd: "basename d \<in> missing a w"
    using new j unfolding missing_def nm by simp
  have nbd: "basename d \<notin> missing a w'"
    using ex j by (simp add: missing_def)
  have "missing a w' \<subseteq> missing a w"
    using sub ex unfolding missing_def by blast
  with bd nbd have "missing a w' \<subset> missing a w" by blast
  with c' show ?thesis by auto
qed

lemma gather_skip:
  "\<not> (copied_by_walk a dep \<and> \<not> exists w (lib_dst a (Path dep))) \<Longrightarrow>
   gather a (dep # deps) w q = gather a deps w q"
  by (auto simp: copied_by_walk_def Let_def)

lemma gather_copy:
  assumes "copied_by_walk a dep" "\<not> exists w (lib_dst a (Path dep))"
  shows "gather a (dep # deps) w q =
     (case copy2 (Path dep) (lib_dst a (Path dep)) w of
        Inl e \<Rightarrow> Inl e
      | Inr w' \<Rightarrow> gather a deps w' (q @ [lib_dst a (Path dep)]))"
  using assms by (auto simp: copied_by_walk_def Let_def)

lemma gather_copy_Inr:
  assumes "copied_by_walk a dep" "\<not> exists w (lib_dst a (Path dep))"
    and "gather a (dep # deps) w q = Inr (w', q')"
  obtains w1 where "copy2 (Path dep) (lib_dst a (Path dep)) w = Inr w1"
    "gather a deps w1 (q @ [lib_dst a (Path dep)]) = Inr (w', q')"
  using assms(3) unfolding gather_copy[OF assms(1,2)] by (auto split: sum.splits)

lemma gather_measure:
  "set deps \<subseteq> cands a w \<Longrightarrow> gather a deps w q = Inr (w', q') \<Longrightarrow>
   (w' = w \<and> q' = q) \<or> missing a w' \<subset> missing a w"
proof (induction deps arbitrary: w q)
  case Nil
  then show ?case by simp
next
  case (Cons dep deps)
  let ?dst = "lib_dst a (Path dep)"
  show ?case
  proof (cases "copied_by_walk a dep \<and> \<not> exists w ?dst")
    case False
    have "gather a deps w q = Inr (w', q')"
      using Cons.prems(2) unfolding gather_skip[OF False] .
    with Cons show ?thesis by simp
  next
    case True
    from gather_copy_Inr[OF True[THEN conjunct1] True[THEN conjunct2] Cons.prems(2)]
    obtain w1 where
      c: "copy2 (Path dep) ?dst w = Inr w1" and g: "gather a deps w1 (q @ [?dst]) = Inr (w', q')"
      by blast
    from True Cons.prems(1) have
      st: "missing a w1 \<subset> missing a w \<and> cands a w \<subseteq> cands a w1"
      by (intro copy2_step[OF c]) (auto simp: copied_by_walk_def)
    with Cons.prems(1) have "set deps \<subseteq> cands a w1" by auto
    from Cons.IH[OF this g] st show ?thesis by auto
  qed
qed

text \<open>
  \<^verbatim>\<open>
    while queue:
        item = queue.pop(0)
        for dep in otool_deps(item): ...
  \<close>
\<close>

function walk :: "args \<Rightarrow> world \<Rightarrow> string list \<Rightarrow> outcome" where
  "walk a w [] = Inr w"
| "walk a w (item # queue) =
     (case otool_deps item w of
        Inl e \<Rightarrow> Inl e
      | Inr (deps, w1) \<Rightarrow>
          (case gather a deps w1 queue of
             Inl e \<Rightarrow> Inl e
           | Inr (w2, queue') \<Rightarrow> walk a w2 queue'))"
  by pat_completeness auto
termination
proof (relation "inv_image (less_than <*lex*> less_than)
    (\<lambda>(a, w, queue). (card (missing a w), length queue))")
  show "wf (inv_image (less_than <*lex*> less_than)
    (\<lambda>(a, w, queue). (card (missing a w), length queue)))"
    by (intro wf_inv_image wf_lex_prod wf_less_than)
next
  fix a w item queue x2 deps w1 x2a w2 queue'
  assume o: "otool_deps item w = Inr x2" "(deps, w1) = x2"
    and g: "gather a deps w1 queue = Inr x2a" "(w2, queue') = x2a"
  from o have o': "set deps \<subseteq> cands a w" "files w1 = files w"
    using otool_deps_cands[of item w deps w1 a] by auto
  then have same: "cands a w1 = cands a w" "missing a w1 = missing a w"
    by (simp_all add: cands_def missing_def exists_def lookup_def)
  from g o' same have "(w2 = w1 \<and> queue' = queue) \<or> missing a w2 \<subset> missing a w1"
    using gather_measure[of deps a w1 queue w2 queue'] by auto
  then have "(w2 = w1 \<and> queue' = queue) \<or> card (missing a w2) < card (missing a w)"
    using same finite_missing[of a w] psubset_card_mono[of "missing a w" "missing a w2"]
    by auto
  then show "((a, w2, queue'), a, w, item # queue)
      \<in> inv_image (less_than <*lex*> less_than)
          (\<lambda>(a, w, queue). (card (missing a w), length queue))"
    using same by auto
qed

section \<open>The rest of bundle\<close>

subsection \<open>Fix install IDs\<close>

definition set_lib_id :: "string \<Rightarrow> world \<Rightarrow> outcome" where
  "set_lib_id dylib w = set_id dylib (''@rpath/lib/'' @ path_name dylib) w"

definition fw_install_name :: "string \<Rightarrow> string" where
  "fw_install_name name = ''@rpath/'' @ name @ ''.framework/Versions/5/'' @ name"

definition set_fw_id :: "args \<Rightarrow> string \<Rightarrow> world \<Rightarrow> outcome" where
  "set_fw_id a name w =
     (if exists w (fw_bin a name) then set_id (fw_bin a name) (fw_install_name name) w
      else Inr w)"

definition fix_install_ids :: "args \<Rightarrow> world \<Rightarrow> outcome" where
  "fix_install_ids a w =
     and_then (for_each set_lib_id (glob_dylib w (lib_dir a)) w)
       (for_each (set_fw_id a) QT_FRAMEWORKS)"

subsection \<open>Remap deps in all binaries\<close>

text \<open>\<open>if name:\<close> holds for a name that is neither \<open>None\<close> nor empty.\<close>

definition remap_dep :: "args \<Rightarrow> string \<Rightarrow> string \<Rightarrow> world \<Rightarrow> outcome" where
  "remap_dep a binpath dep w =
     (if startswith dep ''@'' then Inr w
      else if startswith dep (gimp_app a) \<or> startswith dep ''/System''
              \<or> startswith dep ''/usr/lib'' then Inr w
      else if startswith dep (macports_prefix a)
      then (if contains dep ''.framework/''
            then (case framework_name dep of
                    None \<Rightarrow> Inr w
                  | Some name \<Rightarrow>
                      if name \<noteq> []
                      then install_name_tool (Change dep (fw_install_name name)) binpath w
                      else Inr w)
            else if endswith dep ''.dylib''
            then install_name_tool (Change dep (''@rpath/lib/'' @ path_name (Path dep))) binpath w
            else Inr w)
      else Inr w)"

definition remap_binary :: "args \<Rightarrow> string \<Rightarrow> world \<Rightarrow> outcome" where
  "remap_binary a binpath w =
     (case otool_deps binpath w of
        Inl e \<Rightarrow> Inl e
      | Inr (deps, w') \<Rightarrow> for_each (remap_dep a binpath) deps w')"

definition remap_deps :: "args \<Rightarrow> string list \<Rightarrow> world \<Rightarrow> outcome" where
  "remap_deps a binaries w = for_each (remap_binary a) binaries w"

subsection \<open>Add rpaths\<close>

definition add_plugin_dylib_rpaths :: "string \<Rightarrow> world \<Rightarrow> outcome" where
  "add_plugin_dylib_rpaths dylib w =
     and_then (add_rpath_if_missing dylib ''@loader_path/../..'' w)
       (add_rpath_if_missing dylib ''@executable_path/../Frameworks'')"

definition add_fw_rpath :: "args \<Rightarrow> string \<Rightarrow> world \<Rightarrow> outcome" where
  "add_fw_rpath a name w =
     (if exists w (fw_bin a name)
      then add_rpath_if_missing (fw_bin a name) ''@loader_path/../../..'' w
      else Inr w)"

definition add_rpaths :: "args \<Rightarrow> world \<Rightarrow> outcome" where
  "add_rpaths a w =
     and_then (add_rpath_if_missing (plugin_bin a) ''@loader_path/Frameworks'' w) (\<lambda>w.
     and_then (add_rpath_if_missing (plugin_bin a) (gimp_app a @ ''/Contents/Resources'') w) (\<lambda>w.
     and_then (for_each add_plugin_dylib_rpaths (rglob_dylib w (plugins_dir a)) w)
       (for_each (add_fw_rpath a) QT_FRAMEWORKS)))"

subsection \<open>The whole of bundle\<close>

text \<open>
  The three parts of \<open>bundle\<close> after its first test, in the order of the script:
  the copies of frameworks, plugins and \<open>qt.conf\<close>; the explicit libs and the walk;
  the rewriting of install names, dependencies and rpaths. The walk starts from
  \<open>list(binaries)\<close>, and the dependencies are remapped in the order of a second
  \<open>list(binaries)\<close>, taken after the dylibs of \<open>Frameworks/lib\<close> were added to the set.
\<close>

definition copy_qt :: "args \<Rightarrow> world \<Rightarrow> outcome" where
  "copy_qt a w =
     and_then (for_each mkdir [frameworks_dir a, plugins_dir a, lib_dir a] w) (\<lambda>w.
     and_then (for_each (copy_qt_framework a) QT_FRAMEWORKS w) (\<lambda>w.
     and_then (for_each (copy_qt_plugin_dir a) QT_PLUGIN_SUBDIRS w)
       (write_qt_conf a)))"

definition copy_libs :: "args \<Rightarrow> string list \<Rightarrow> world \<Rightarrow> outcome" where
  "copy_libs a binaries w =
     and_then (for_each (copy_explicit_lib a) (explicit_libs a) w) (\<lambda>w. walk a w binaries)"

definition all_binaries :: "args \<Rightarrow> string list \<Rightarrow> world \<Rightarrow> string list" where
  "all_binaries a binaries w = fold set_add (glob_dylib w (lib_dir a)) binaries"

definition rewrite ::
  "(string list \<Rightarrow> string list) \<Rightarrow> args \<Rightarrow> string list \<Rightarrow> world \<Rightarrow> outcome" where
  "rewrite order a binaries w =
     and_then (fix_install_ids a w) (\<lambda>w'.
     and_then (remap_deps a (order (all_binaries a binaries w)) w') (add_rpaths a))"

text \<open>The function \<open>bundle\<close> of the script; its name is a keyword of Isabelle.\<close>

definition bundle_libs :: "(string list \<Rightarrow> string list) \<Rightarrow> args \<Rightarrow> world \<Rightarrow> outcome" where
  "bundle_libs order a w =
     (if \<not> is_dir w (bundle_dir a) \<or> \<not> exists w (plugin_bin a)
      then Inl (SystemExit 1, print_stderr ''Missing bundle_dir or plugin_bin'' w)
      else and_then (copy_qt a w) (\<lambda>w1.
           and_then (copy_libs a (order (initial_binaries a w1)) w1)
             (rewrite order a (initial_binaries a w1))))"

section \<open>Notions used in the statements\<close>

text \<open>
  What a run added to the trace, and that it only added to it.
\<close>

definition new_events :: "world \<Rightarrow> world \<Rightarrow> event list" where
  "new_events w w' = drop (length (trace w)) (trace w')"

definition grows :: "world \<Rightarrow> world \<Rightarrow> bool" where
  "grows w w' \<longleftrightarrow> prefix (trace w) (trace w')"

fun is_copytree :: "event \<Rightarrow> bool" where
  "is_copytree (Copytree src dst) = True"
| "is_copytree e = False"

fun copy_of :: "event \<Rightarrow> (string \<times> string) list" where
  "copy_of (Copy2 src dst) = [(src, dst)]"
| "copy_of e = []"

definition copies :: "event list \<Rightarrow> (string \<times> string) list" where
  "copies evs = concat (map copy_of evs)"

fun otool_L_of :: "event \<Rightarrow> string list" where
  "otool_L_of (Exec cmd) =
     (if length cmd = 3 \<and> take 2 cmd = [''otool'', ''-L''] then [last cmd] else [])"
| "otool_L_of e = []"

definition processed :: "event list \<Rightarrow> string list" where
  "processed evs = concat (map otool_L_of evs)"

definition reported :: "world \<Rightarrow> string \<Rightarrow> string list" where
  "reported w item =
     (case lookup w item of Some (Bin m) \<Rightarrow> otool_deps_of (otool_L_text item m) | _ \<Rightarrow> [])"

definition lib_copies :: "args \<Rightarrow> world \<Rightarrow> world \<Rightarrow> bool" where
  "lib_copies a w w' \<longleftrightarrow>
     grows w w'
     \<and> (\<forall>p. exists w p \<longrightarrow> lookup w' p = lookup w p)
     \<and> (\<forall>c\<in>set (copies (new_events w w')).
           snd c = lib_dst a (fst c) \<and> \<not> exists w (snd c))
     \<and> distinct (map snd (copies (new_events w w')))
     \<and> (\<forall>p. exists w' p \<longleftrightarrow> exists w p \<or> p \<in> snd ` set (copies (new_events w w')))
     \<and> (\<forall>c\<in>set (copies (new_events w w')).
           exists w' (fst c) \<and> lookup w' (snd c) = lookup w' (fst c))"

definition quiet :: "world \<Rightarrow> world \<Rightarrow> bool" where
  "quiet w w' \<longleftrightarrow> grows w w' \<and> copies (new_events w w') = []"

text \<open>
  The copies a walk is expected to make, given the paths that exist when it starts and
  the dependency paths reported to it, in the order it meets them: a path is picked
  when it passes the tests of the walk and its destination neither existed at the start
  nor was picked before. Each pick is the pair of source and destination.
\<close>

fun walk_picks :: "args \<Rightarrow> string list \<Rightarrow> string list \<Rightarrow> (string \<times> string) list" where
  "walk_picks a taken [] = []"
| "walk_picks a taken (dep # deps) =
     (if copied_by_walk a dep \<and> lib_dst a (Path dep) \<notin> set taken
      then (Path dep, lib_dst a (Path dep)) # walk_picks a (lib_dst a (Path dep) # taken) deps
      else walk_picks a taken deps)"

text \<open>
  Two directories are apart when neither is the other or lies below it. A world is
  tidy for the frameworks when nothing lies below a destination
  \<open>Frameworks/<name>.framework\<close> that does not exist, as in every file system.
\<close>

definition apart :: "string \<Rightarrow> string \<Rightarrow> bool" where
  "apart d e \<longleftrightarrow> \<not> startswith (e @ ''/'') (d @ ''/'') \<and> \<not> startswith (d @ ''/'') (e @ ''/'')"

definition tidy :: "args \<Rightarrow> world \<Rightarrow> bool" where
  "tidy a w \<longleftrightarrow>
     (\<forall>name\<in>set QT_FRAMEWORKS.
        exists w (fw_dst a name) \<or> (\<forall>p\<in>set (paths w). \<not> inside (fw_dst a name) p))"

text \<open>
  The copies the loop over the explicit libs is expected to make, given the paths that
  exist when it starts: a source is picked when it exists and its destination does not,
  counting the destinations picked before as existing.
\<close>

fun explicit_picks :: "args \<Rightarrow> string list \<Rightarrow> string list \<Rightarrow> (string \<times> string) list" where
  "explicit_picks a taken [] = []"
| "explicit_picks a taken (src # srcs) =
     (if src \<in> set taken \<and> lib_dst a src \<notin> set taken
      then (src, lib_dst a src) # explicit_picks a (lib_dst a src # taken) srcs
      else explicit_picks a taken srcs)"

text \<open>
  What a path holds as a Mach-O binary, and its install name, loaded libraries and
  runtime search paths. \<open>tool_run P w w'\<close>: the world \<open>w'\<close> comes from \<open>w\<close> by runs of
  \<open>install_name_tool\<close> that satisfy \<open>P\<close> and by recording events.
\<close>

definition macho_at :: "world \<Rightarrow> string \<Rightarrow> macho option" where
  "macho_at w p = (case lookup w p of Some (Bin m) \<Rightarrow> Some m | _ \<Rightarrow> None)"

definition id_of :: "world \<Rightarrow> string \<Rightarrow> string option" where
  "id_of w p = (case macho_at w p of Some m \<Rightarrow> install_id m | None \<Rightarrow> None)"

definition deps_of :: "world \<Rightarrow> string \<Rightarrow> string list" where
  "deps_of w p = (case macho_at w p of Some m \<Rightarrow> load_deps m | None \<Rightarrow> [])"

definition rpaths_of :: "world \<Rightarrow> string \<Rightarrow> string list" where
  "rpaths_of w p = (case macho_at w p of Some m \<Rightarrow> rpaths m | None \<Rightarrow> [])"

inductive tool_run :: "(tool_op \<Rightarrow> string \<Rightarrow> bool) \<Rightarrow> world \<Rightarrow> world \<Rightarrow> bool"
  for P :: "tool_op \<Rightarrow> string \<Rightarrow> bool" and w :: world where
  tool_run_refl: "tool_run P w w"
| tool_run_tool: "tool_run P w u \<Longrightarrow> P op q \<Longrightarrow> install_name_tool op q u = Inr u' \<Longrightarrow> tool_run P w u'"
| tool_run_event: "tool_run P w u \<Longrightarrow> tool_run P w (record_event e u)"



section \<open>Example inputs\<close>

text \<open>Small arguments and worlds on which the theorems below are run.\<close>

definition ex_args :: args where
  "ex_args = \<lparr>bundle_dir = ''/b'', plugin_bin = ''/b/g'', qt_prefix = ''/o/qt'',
     gimp_app = ''/G'', macports_prefix = ''/o''\<rparr>"

definition ex_plain :: macho where
  "ex_plain = \<lparr>install_id = None, load_deps = [], rpaths = []\<rparr>"

definition ex_no_plugin :: world where
  "ex_no_plugin = \<lparr>files = [(''/b'', Dir)], trace = [], stderr = []\<rparr>"

definition ex_bin_world :: world where
  "ex_bin_world = \<lparr>files = [(''/g'', Bin ex_plain)], trace = [], stderr = []\<rparr>"

definition ex_bin_world1 :: world where
  "ex_bin_world1 =
     \<lparr>files = [(''/g'', Bin (ex_plain\<lparr>rpaths := [''@r'']\<rparr>))],
      trace = [Exec [''otool'', ''-l'', ''/g''],
               Exec [''install_name_tool'', ''-add_rpath'', ''@r'', ''/g'']],
      stderr = []\<rparr>"

definition ex_qt_world :: world where
  "ex_qt_world =
     \<lparr>files = [(''/b'', Dir), (''/b/g'', Bin ex_plain)]
              @ map (\<lambda>n. (''/o/qt/lib/'' @ n @ ''.framework'', Dir)) QT_FRAMEWORKS,
      trace = [], stderr = []\<rparr>"

definition ex_qt_missing :: world where
  "ex_qt_missing =
     \<lparr>files = [(''/b'', Dir), (''/b/g'', Bin ex_plain), (''/b/Frameworks'', Dir),
               (''/b/Frameworks/QtCore.framework'', Dir),
               (''/o/qt/lib/QtCore.framework'', Dir), (''/o/qt/lib/QtGui.framework'', Dir)],
      trace = [], stderr = []\<rparr>"

definition ex_clash_world :: world where
  "ex_clash_world =
     \<lparr>files =
        [(''/b'', Dir), (''/b/Frameworks'', Dir), (''/b/Frameworks/lib'', Dir),
         (''/b/g'', Bin \<lparr>install_id = None,
            load_deps = [''/o/lib/libx.dylib'', ''/o/alt/libx.dylib'',
                         ''/usr/lib/libSystem.B.dylib'', ''@rpath/libq.dylib'',
                         ''/G/Contents/Resources/lib/libz.1.dylib'', ''/o/lib/mod.so''],
            rpaths = []\<rparr>),
         (''/o/lib/libx.dylib'', Bin \<lparr>install_id = Some ''/o/lib/libx.dylib'',
            load_deps = [''/o/lib//liby.dylib''], rpaths = []\<rparr>),
         (''/o/alt/libx.dylib'', Bin ex_plain),
         (''/o/lib/liby.dylib'', Bin \<lparr>install_id = Some ''/o/lib/liby.dylib'',
            load_deps = [''/usr/lib/libSystem.B.dylib''], rpaths = []\<rparr>)],
      trace = [], stderr = []\<rparr>"



definition ex_fw_world :: world where
  "ex_fw_world =
     \<lparr>files = [(''/b'', Dir), (''/b/g'', Bin ex_plain), (''/b/Frameworks'', Dir),
               (''/b/Frameworks/QtCore.framework'', Dir),
               (''/b/Frameworks/QtCore.framework/stale'', Other ''old''),
               (''/o/qt/lib/QtCore.framework'', Dir),
               (''/o/qt/lib/QtCore.framework/Versions'', Dir),
               (''/o/qt/lib/QtCore.framework/Versions/5'', Dir),
               (''/o/qt/lib/QtCore.framework/Versions/5/QtCore'',
                  Bin \<lparr>install_id = Some ''/o/qt/lib/QtCore.framework/Versions/5/QtCore'',
                       load_deps = [''/usr/lib/libSystem.B.dylib''], rpaths = []\<rparr>)]
              @ map (\<lambda>n. (''/o/qt/lib/'' @ n @ ''.framework'', Dir))
                  [''QtGui'', ''QtWidgets'', ''QtNetwork'', ''QtDBus'', ''QtPrintSupport''],
      trace = [], stderr = []\<rparr>"

definition ex_fw_dirs :: world where
  "ex_fw_dirs =
     projr (for_each mkdir [frameworks_dir ex_args, plugins_dir ex_args, lib_dir ex_args] ex_fw_world)"

definition ex_fw_copied :: world where
  "ex_fw_copied = projr (for_each (copy_qt_framework ex_args) QT_FRAMEWORKS ex_fw_dirs)"

definition ex_qt_missing_dirs :: world where
  "ex_qt_missing_dirs =
     projr (for_each mkdir [frameworks_dir ex_args, plugins_dir ex_args, lib_dir ex_args] ex_qt_missing)"

definition ex_qt_missing_two :: world where
  "ex_qt_missing_two =
     projr (for_each (copy_qt_framework ex_args) [''QtCore'', ''QtGui''] ex_qt_missing_dirs)"



definition ex_clash_walked2 :: world where
  "ex_clash_walked2 = projr (walk ex_args ex_clash_world [''/b/g'', ''/o/lib/liby.dylib''])"

definition ex_run_world :: world where
  "ex_run_world =
     \<lparr>files =
        [(''/b'', Dir),
         (''/b/g'', Bin \<lparr>install_id = None,
            load_deps = [''/o/qt/lib/QtCore.framework/Versions/5/QtCore'', ''/o/lib/libx.dylib'',
                         ''/o/alt/libx.dylib'', ''/o/lib/mod.so''],
            rpaths = [''/x/path @loader_path/Frameworks'']\<rparr>),
         (''/o/qt/lib/QtCore.framework'', Dir),
         (''/o/qt/lib/QtCore.framework/Versions'', Dir),
         (''/o/qt/lib/QtCore.framework/Versions/5'', Dir),
         (''/o/qt/lib/QtCore.framework/Versions/5/QtCore'',
            Bin \<lparr>install_id = Some ''/o/qt/lib/QtCore.framework/Versions/5/QtCore'',
                 load_deps = [], rpaths = []\<rparr>),
         (''/o/qt/lib/QtGui.framework'', Dir), (''/o/qt/lib/QtWidgets.framework'', Dir),
         (''/o/qt/lib/QtNetwork.framework'', Dir), (''/o/qt/lib/QtDBus.framework'', Dir),
         (''/o/qt/lib/QtPrintSupport.framework'', Dir),
         (''/o/qt/plugins/platforms'', Dir),
         (''/o/qt/plugins/platforms/libqcocoa.dylib'',
            Bin \<lparr>install_id = Some ''libqcocoa.dylib'',
                 load_deps = [''/o/qt/lib/QtCore.framework/Versions/5/QtCore''], rpaths = []\<rparr>),
         (''/o/lib/libfftw3.3.dylib'', Bin \<lparr>install_id = Some ''/o/lib/libfftw3.3.dylib'',
            load_deps = [], rpaths = []\<rparr>),
         (''/o/lib/libx.dylib'', Bin \<lparr>install_id = Some ''/o/lib/libx.dylib'',
            load_deps = [''/o/lib/libfftw3.3.dylib''], rpaths = []\<rparr>),
         (''/o/alt/libx.dylib'', Bin ex_plain)],
      trace = [], stderr = []\<rparr>"

text \<open>The world after \<open>bundle\<close> has run on \<open>ex_run_world\<close>, the sets listed in reverse.\<close>

definition ex_run_done :: world where
  "ex_run_done =
     \<lparr>files =
         [(''/b'', Dir),
          (''/b/g'',
           Bin \<lparr>install_id = None,
                  load_deps =
                    [''@rpath/QtCore.framework/Versions/5/QtCore'',
                     ''@rpath/lib/libx.dylib'', ''@rpath/lib/libx.dylib'',
                     ''/o/lib/mod.so''],
                  rpaths =
                    [''/x/path @loader_path/Frameworks'',
                     ''/G/Contents/Resources'']\<rparr>),
          (''/o/qt/lib/QtCore.framework'', Dir),
          (''/o/qt/lib/QtCore.framework/Versions'', Dir),
          (''/o/qt/lib/QtCore.framework/Versions/5'', Dir),
          (''/o/qt/lib/QtCore.framework/Versions/5/QtCore'',
           Bin \<lparr>install_id =
                  Some ''/o/qt/lib/QtCore.framework/Versions/5/QtCore'',
                  load_deps = [], rpaths = []\<rparr>),
          (''/o/qt/lib/QtGui.framework'', Dir),
          (''/o/qt/lib/QtWidgets.framework'', Dir),
          (''/o/qt/lib/QtNetwork.framework'', Dir),
          (''/o/qt/lib/QtDBus.framework'', Dir),
          (''/o/qt/lib/QtPrintSupport.framework'', Dir),
          (''/o/qt/plugins/platforms'', Dir),
          (''/o/qt/plugins/platforms/libqcocoa.dylib'',
           Bin \<lparr>install_id = Some ''libqcocoa.dylib'',
                  load_deps =
                    [''/o/qt/lib/QtCore.framework/Versions/5/QtCore''],
                  rpaths = []\<rparr>),
          (''/o/lib/libfftw3.3.dylib'',
           Bin \<lparr>install_id = Some ''/o/lib/libfftw3.3.dylib'',
                  load_deps = [], rpaths = []\<rparr>),
          (''/o/lib/libx.dylib'',
           Bin \<lparr>install_id = Some ''/o/lib/libx.dylib'',
                  load_deps = [''/o/lib/libfftw3.3.dylib''], rpaths = []\<rparr>),
          (''/o/alt/libx.dylib'',
           Bin \<lparr>install_id = None, load_deps = [], rpaths = []\<rparr>),
          (''/b/Frameworks'', Dir), (''/b/Frameworks/plugins'', Dir),
          (''/b/Frameworks/lib'', Dir),
          (''/b/Frameworks/QtCore.framework'', Dir),
          (''/b/Frameworks/QtCore.framework/Versions'', Dir),
          (''/b/Frameworks/QtCore.framework/Versions/5'', Dir),
          (''/b/Frameworks/QtCore.framework/Versions/5/QtCore'',
           Bin \<lparr>install_id =
                  Some ''@rpath/QtCore.framework/Versions/5/QtCore'',
                  load_deps = [], rpaths = [''@loader_path/../../..'']\<rparr>),
          (''/b/Frameworks/QtGui.framework'', Dir),
          (''/b/Frameworks/QtWidgets.framework'', Dir),
          (''/b/Frameworks/QtNetwork.framework'', Dir),
          (''/b/Frameworks/QtDBus.framework'', Dir),
          (''/b/Frameworks/QtPrintSupport.framework'', Dir),
          (''/b/Frameworks/plugins/platforms'', Dir),
          (''/b/Frameworks/plugins/platforms/libqcocoa.dylib'',
           Bin \<lparr>install_id = Some ''libqcocoa.dylib'',
                  load_deps =
                    [''@rpath/QtCore.framework/Versions/5/QtCore''],
                  rpaths =
                    [''@loader_path/../..'',
                     ''@executable_path/../Frameworks'']\<rparr>),
          (''/b/qt.conf'', Other ''[Paths]\<newline>Plugins = Frameworks/plugins\<newline>''),
          (''/b/Frameworks/lib/libfftw3.3.dylib'',
           Bin \<lparr>install_id = Some ''@rpath/lib/libfftw3.3.dylib'',
                  load_deps = [], rpaths = []\<rparr>),
          (''/b/Frameworks/lib/libx.dylib'',
           Bin \<lparr>install_id = Some ''@rpath/lib/libx.dylib'',
                  load_deps = [''@rpath/lib/libfftw3.3.dylib''],
                  rpaths = []\<rparr>)],
         trace =
           [Mkdir ''/b/Frameworks'', Mkdir ''/b/Frameworks/plugins'',
            Mkdir ''/b/Frameworks/lib'',
            Copytree ''/o/qt/lib/QtCore.framework''
             ''/b/Frameworks/QtCore.framework'',
            Copytree ''/o/qt/lib/QtGui.framework''
             ''/b/Frameworks/QtGui.framework'',
            Copytree ''/o/qt/lib/QtWidgets.framework''
             ''/b/Frameworks/QtWidgets.framework'',
            Copytree ''/o/qt/lib/QtNetwork.framework''
             ''/b/Frameworks/QtNetwork.framework'',
            Copytree ''/o/qt/lib/QtDBus.framework''
             ''/b/Frameworks/QtDBus.framework'',
            Copytree ''/o/qt/lib/QtPrintSupport.framework''
             ''/b/Frameworks/QtPrintSupport.framework'',
            Copytree ''/o/qt/plugins/platforms''
             ''/b/Frameworks/plugins/platforms'',
            WriteText ''/b/qt.conf''
             ''[Paths]\<newline>Plugins = Frameworks/plugins\<newline>'',
            Copy2 ''/o/lib/libfftw3.3.dylib''
             ''/b/Frameworks/lib/libfftw3.3.dylib'',
            Exec
             [''otool'', ''-L'',
              ''/b/Frameworks/plugins/platforms/libqcocoa.dylib''],
            Exec
             [''otool'', ''-L'',
              ''/b/Frameworks/QtCore.framework/Versions/5/QtCore''],
            Exec [''otool'', ''-L'', ''/b/g''],
            Copy2 ''/o/lib/libx.dylib'' ''/b/Frameworks/lib/libx.dylib'',
            Exec [''otool'', ''-L'', ''/b/Frameworks/lib/libx.dylib''],
            Exec
             [''install_name_tool'', ''-id'',
              ''@rpath/lib/libfftw3.3.dylib'',
              ''/b/Frameworks/lib/libfftw3.3.dylib''],
            Exec
             [''install_name_tool'', ''-id'', ''@rpath/lib/libx.dylib'',
              ''/b/Frameworks/lib/libx.dylib''],
            Exec
             [''install_name_tool'', ''-id'',
              ''@rpath/QtCore.framework/Versions/5/QtCore'',
              ''/b/Frameworks/QtCore.framework/Versions/5/QtCore''],
            Exec [''otool'', ''-L'', ''/b/Frameworks/lib/libx.dylib''],
            Exec
             [''install_name_tool'', ''-change'',
              ''/o/lib/libfftw3.3.dylib'', ''@rpath/lib/libfftw3.3.dylib'',
              ''/b/Frameworks/lib/libx.dylib''],
            Exec [''otool'', ''-L'', ''/b/Frameworks/lib/libfftw3.3.dylib''],
            Exec
             [''otool'', ''-L'',
              ''/b/Frameworks/plugins/platforms/libqcocoa.dylib''],
            Exec
             [''install_name_tool'', ''-change'',
              ''/o/qt/lib/QtCore.framework/Versions/5/QtCore'',
              ''@rpath/QtCore.framework/Versions/5/QtCore'',
              ''/b/Frameworks/plugins/platforms/libqcocoa.dylib''],
            Exec
             [''otool'', ''-L'',
              ''/b/Frameworks/QtCore.framework/Versions/5/QtCore''],
            Exec [''otool'', ''-L'', ''/b/g''],
            Exec
             [''install_name_tool'', ''-change'',
              ''/o/qt/lib/QtCore.framework/Versions/5/QtCore'',
              ''@rpath/QtCore.framework/Versions/5/QtCore'', ''/b/g''],
            Exec
             [''install_name_tool'', ''-change'', ''/o/lib/libx.dylib'',
              ''@rpath/lib/libx.dylib'', ''/b/g''],
            Exec
             [''install_name_tool'', ''-change'', ''/o/alt/libx.dylib'',
              ''@rpath/lib/libx.dylib'', ''/b/g''],
            Exec [''otool'', ''-l'', ''/b/g''],
            Exec [''otool'', ''-l'', ''/b/g''],
            Exec
             [''install_name_tool'', ''-add_rpath'',
              ''/G/Contents/Resources'', ''/b/g''],
            Exec
             [''otool'', ''-l'',
              ''/b/Frameworks/plugins/platforms/libqcocoa.dylib''],
            Exec
             [''install_name_tool'', ''-add_rpath'', ''@loader_path/../..'',
              ''/b/Frameworks/plugins/platforms/libqcocoa.dylib''],
            Exec
             [''otool'', ''-l'',
              ''/b/Frameworks/plugins/platforms/libqcocoa.dylib''],
            Exec
             [''install_name_tool'', ''-add_rpath'',
              ''@executable_path/../Frameworks'',
              ''/b/Frameworks/plugins/platforms/libqcocoa.dylib''],
            Exec
             [''otool'', ''-l'',
              ''/b/Frameworks/QtCore.framework/Versions/5/QtCore''],
            Exec
             [''install_name_tool'', ''-add_rpath'',
              ''@loader_path/../../..'',
              ''/b/Frameworks/QtCore.framework/Versions/5/QtCore'']],
         stderr = []\<rparr>"

definition ex_clash_libs :: world where
  "ex_clash_libs = projr (copy_libs ex_args [''/b/g''] ex_clash_world)"

section \<open>Basic facts about the model\<close>

lemma and_then_Inr:
  "and_then r f = Inr w' \<longleftrightarrow> (\<exists>w1. r = Inr w1 \<and> f w1 = Inr w')"
  by (cases r) (auto simp: and_then_def)

lemma check_output_Inr:
  "check_output cmd render p w = Inr (out, w') \<longleftrightarrow>
     (\<exists>m. lookup w p = Some (Bin m) \<and> out = render p m \<and> w' = record_event (Exec cmd) w)"
  by (auto simp: check_output_def split: option.splits node.splits)

lemma lookup_record_event [simp]: "lookup (record_event e w) p = lookup w p"
  by (simp add: lookup_def record_event_def)

lemma files_record_event [simp]: "files (record_event e w) = files w"
  by (simp add: record_event_def)

lemma trace_record_event [simp]: "trace (record_event e w) = trace w @ [e]"
  by (simp add: record_event_def)

lemma stderr_record_event [simp]: "stderr (record_event e w) = stderr w"
  by (simp add: record_event_def)

lemma lookup_put [simp]: "lookup (put p n w) q = (if q = p then Some n else lookup w q)"
  by (simp add: lookup_def put_def update_conv')

lemma trace_put [simp]: "trace (put p n w) = trace w"
  by (simp add: put_def)

lemma stderr_put [simp]: "stderr (put p n w) = stderr w"
  by (simp add: put_def)

lemma install_name_tool_Inr:
  "install_name_tool op p w = Inr w' \<longleftrightarrow>
     (\<exists>m m'. lookup w p = Some (Bin m) \<and> tool_effect op m = Some m'
        \<and> w' = put p (Bin m') (record_event (Exec (''install_name_tool'' # tool_args op @ [p])) w))"
  by (auto simp: install_name_tool_def Let_def split: option.splits node.splits)

lemma sublist_concat_map:
  assumes "x \<in> set xs" and s: "sublist s (f x)"
  shows "sublist s (concat (map f xs))"
proof -
  from assms(1) obtain ys zs where "xs = ys @ x # zs" by (auto dest: split_list)
  then have c: "concat (map f xs) = concat (map f ys) @ f x @ concat (map f zs)" by simp
  from s obtain a b where "f x = a @ s @ b" by (auto simp: sublist_def)
  with c have "concat (map f xs) = (concat (map f ys) @ a) @ s @ (b @ concat (map f zs))"
    by simp
  then show ?thesis unfolding sublist_def by blast
qed

lemma rpath_in_text:
  assumes "r \<in> set (rpaths m)"
  shows "has_rpath_text (otool_l_text p m) r"
proof -
  have "otool_l_rpath r = (''          cmd LC_RPATH'' @ [LF] @ ''         '')
          @ (''path '' @ r @ '' '') @ (''(offset 12)'' @ [LF])"
    by (simp add: otool_l_rpath_def)
  then have "sublist (''path '' @ r @ '' '') (otool_l_rpath r)"
    unfolding sublist_def by blast
  with assms have "sublist (''path '' @ r @ '' '') (concat (map otool_l_rpath (rpaths m)))"
    by (rule sublist_concat_map)
  then obtain a b where "concat (map otool_l_rpath (rpaths m)) = a @ (''path '' @ r @ '' '') @ b"
    by (auto simp: sublist_def)
  then have "\<exists>a' b'. otool_l_text p m = a' @ (''path '' @ r @ '' '') @ b'"
    unfolding otool_l_text_def
    by (metis append.assoc append_Nil2)
  then show ?thesis
    unfolding has_rpath_text_def contains_def sublist_def .
qed

lemma grows_refl [simp]: "grows w w"
  by (simp add: grows_def)

lemma grows_trans: "grows w w1 \<Longrightarrow> grows w1 w2 \<Longrightarrow> grows w w2"
  by (auto simp: grows_def)

lemma grows_new_events: "grows w w' \<Longrightarrow> trace w' = trace w @ new_events w w'"
  by (auto simp: grows_def new_events_def prefix_def)

lemma new_events_trans:
  "grows w w1 \<Longrightarrow> grows w1 w2 \<Longrightarrow> new_events w w2 = new_events w w1 @ new_events w1 w2"
  by (auto simp: grows_def new_events_def prefix_def)

lemma trace_put_all [simp]: "trace (put_all es w) = trace w"
  by (induction es w rule: put_all.induct) simp_all

lemma stderr_put_all [simp]: "stderr (put_all es w) = stderr w"
  by (induction es w rule: put_all.induct) simp_all

lemma mkdir_Inr:
  "mkdir d w = Inr w' \<Longrightarrow>
     (is_dir w d \<and> w' = w) \<or> (\<not> exists w d \<and> w' = record_event (Mkdir d) (put d Dir w))"
  by (auto simp: mkdir_def split: if_splits)

lemma map_of_filter_key:
  "map_of (filter (\<lambda>(p, n). Q p) al) k = (if Q k then map_of al k else None)"
  by (induction al) auto

lemma rmtree_Inr:
  "rmtree d w = Inr w' \<Longrightarrow> is_dir w d \<and> trace w' = trace w @ [Rmtree d] \<and> stderr w' = stderr w
     \<and> (\<forall>p. lookup w' p = (if p \<noteq> d \<and> \<not> inside d p then lookup w p else None))"
  by (auto simp: rmtree_def is_dir_def lookup_def record_event_def map_of_filter_key
      split: option.splits node.splits)

lemma lookup_put_all_other:
  "q \<notin> fst ` set es \<Longrightarrow> lookup (put_all es w) q = lookup w q"
  by (induction es w rule: put_all.induct) auto

lemma inside_longer: "inside d p \<Longrightarrow> length d < length p"
  by (auto simp: inside_def startswith_def prefix_def)

lemma copytree_Inr:
  assumes "copytree src dst w = Inr w'"
  shows "is_dir w src \<and> \<not> exists w dst \<and> trace w' = trace w @ [Copytree src dst]
     \<and> stderr w' = stderr w \<and> is_dir w' dst"
proof -
  let ?es = "map (\<lambda>(p, n). (dst @ drop (length src) p, n))
      (filter (\<lambda>(p, n). inside src p) (listing w))"
  from assms have 1: "is_dir w src" "\<not> exists w dst"
    and w': "w' = record_event (Copytree src dst) (put_all ?es (put dst Dir w))"
    by (auto simp: copytree_def is_dir_def split: option.splits node.splits if_splits)
  have "dst \<notin> fst ` set ?es"
    by (auto dest!: inside_longer)
  then have "lookup (put_all ?es (put dst Dir w)) dst = Some Dir"
    by (simp add: lookup_put_all_other)
  with 1 w' show ?thesis by (simp add: is_dir_def)
qed

lemma lookup_listing: "map_of (listing w) = lookup w"
proof
  fix q
  have "\<And>ps. map_of (concat (map (\<lambda>p. case lookup w p of None \<Rightarrow> [] | Some n \<Rightarrow> [(p, n)]) ps)) q
      = (if q \<in> set ps then lookup w q else None)"
  proof -
    fix ps show "map_of (concat (map (\<lambda>p. case lookup w p of None \<Rightarrow> [] | Some n \<Rightarrow> [(p, n)]) ps)) q
      = (if q \<in> set ps then lookup w q else None)"
      by (induction ps) (auto split: option.splits)
  qed
  moreover have "q \<notin> set (paths w) \<Longrightarrow> lookup w q = None"
    by (auto simp: paths_def lookup_def map_of_eq_None_iff)
  ultimately show "map_of (listing w) q = lookup w q"
    by (auto simp: listing_def)
qed

lemma copytree_other:
  assumes "copytree src dst w = Inr w'" and "q \<noteq> dst" and "\<not> inside dst q"
  shows "lookup w' q = lookup w q"
proof -
  let ?es = "map (\<lambda>(p, n). (dst @ drop (length src) p, n))
      (filter (\<lambda>(p, n). inside src p) (listing w))"
  from assms have w': "w' = record_event (Copytree src dst) (put_all ?es (put dst Dir w))"
    by (auto simp: copytree_def split: option.splits node.splits if_splits)
  have "q \<notin> fst ` set ?es"
  proof
    assume "q \<in> fst ` set ?es"
    then obtain p where "inside src p" "q = dst @ drop (length src) p" by auto
    then have "inside dst q"
      by (auto simp: inside_def startswith_def prefix_def)
    with assms(3) show False by simp
  qed
  with w' assms(2) show ?thesis by (simp add: lookup_put_all_other)
qed

lemma for_each_append:
  "for_each body (xs @ ys) w = and_then (for_each body xs w) (for_each body ys)"
  by (induction xs arbitrary: w) (auto simp: and_then_def split: sum.splits)

lemma for_each_Cons_Inr:
  "for_each body (x # xs) w = Inr w' \<longleftrightarrow>
     (\<exists>w1. body x w = Inr w1 \<and> for_each body xs w1 = Inr w')"
  by (simp add: and_then_Inr)

lemma for_each_invariant:
  assumes "for_each body xs w = Inr w'" and "I w"
    and "\<And>x u u'. x \<in> set xs \<Longrightarrow> I u \<Longrightarrow> body x u = Inr u' \<Longrightarrow> I u'"
  shows "I w'"
  using assms by (induction xs arbitrary: w) (auto simp: and_then_Inr)

lemma for_each_grows:
  assumes "for_each body xs w = Inr w'"
    and "\<And>x u u'. x \<in> set xs \<Longrightarrow> body x u = Inr u' \<Longrightarrow> grows u u'"
  shows "grows w w'"
  by (rule for_each_invariant[OF assms(1), where I = "grows w"])
     (auto intro: grows_trans assms(2))

lemma copy_qt_framework_Inr:
  assumes "copy_qt_framework a name w = Inr w'"
  shows "is_dir w (fw_src a name)
    \<and> is_dir w' (fw_dst a name)
    \<and> stderr w' = stderr w
    \<and> trace w' = trace w
        @ (if exists w (fw_dst a name)
           then [Rmtree (fw_dst a name)] else [])
        @ [Copytree (fw_src a name)
             (fw_dst a name)]"
proof (cases "exists w (fw_dst a name)")
  case True
  with assms obtain w1 where
    r: "rmtree (fw_dst a name) w = Inr w1"
    and c: "copytree (fw_src a name)
             (fw_dst a name) w1 = Inr w'"
    by (auto simp: copy_qt_framework_def Let_def and_then_Inr split: if_splits)
  from rmtree_Inr[OF r] copytree_Inr[OF c] True show ?thesis
    by (auto simp: is_dir_def split: if_splits)
next
  case False
  with assms have
    c: "copytree (fw_src a name)
             (fw_dst a name) w = Inr w'"
    by (auto simp: copy_qt_framework_def Let_def and_then_Inr split: if_splits)
  from copytree_Inr[OF c] False show ?thesis by simp
qed

lemma copy_qt_framework_grows:
  assumes "copy_qt_framework a name w = Inr w'"
  shows "grows w w'
    \<and> filter is_copytree (new_events w w') = [Copytree (fw_src a name) (fw_dst a name)]"
proof -
  from copy_qt_framework_Inr[OF assms] obtain evs where
    "trace w' = trace w @ evs @ [Copytree (fw_src a name) (fw_dst a name)]"
    "evs = [] \<or> evs = [Rmtree (fw_dst a name)]"
    by (cases "exists w (fw_dst a name)") auto
  then show ?thesis by (auto simp: grows_def new_events_def)
qed

lemma copy_qt_frameworks_trace:
  "for_each (copy_qt_framework a) names w = Inr w' \<Longrightarrow>
   grows w w' \<and> filter is_copytree (new_events w w')
     = map (\<lambda>name. Copytree (fw_src a name) (fw_dst a name)) names"
proof (induction names arbitrary: w)
  case Nil
  then show ?case by (simp add: new_events_def)
next
  case (Cons name names)
  then obtain w1 where 1: "copy_qt_framework a name w = Inr w1"
    and 2: "for_each (copy_qt_framework a) names w1 = Inr w'"
    by (auto simp: and_then_Inr)
  from copy_qt_framework_grows[OF 1] Cons.IH[OF 2]
  have g: "grows w w1" "grows w1 w'" by simp_all
  then have "new_events w w' = new_events w w1 @ new_events w1 w'"
    by (rule new_events_trans)
  with copy_qt_framework_grows[OF 1] Cons.IH[OF 2] g show ?case
    by (simp add: grows_trans[OF g])
qed

lemma copy_qt_frameworks_missing:
  assumes "for_each (copy_qt_framework a) pre w = Inr w1"
    and "\<not> exists w1 (fw_src a name)"
  shows "for_each (copy_qt_framework a) (pre @ name # post) w
     = Inl (SystemExit 1, print_stderr (''Missing Qt framework: '' @ fw_src a name) w1)"
  using assms by (simp add: for_each_append and_then_def copy_qt_framework_def)

lemma qt_names:
  "n \<in> set QT_FRAMEWORKS \<Longrightarrow> CHR ''.'' \<notin> set n \<and> CHR ''/'' \<notin> set n"
  by (auto simp: QT_FRAMEWORKS_def)

lemma fw_dst_eq:
  assumes "n \<in> set QT_FRAMEWORKS"
  shows "fw_dst a n = frameworks_dir a @ ''/'' @ n @ ''.framework''"
proof -
  have "n @ ''.framework'' \<noteq> ''.''" by (cases n) auto
  then have "is_part (n @ ''.framework'')"
    using qt_names[OF assms] by (simp add: is_part_def)
  from joinpath_part[OF frameworks_dir_normal this] show ?thesis by (simp add: fw_dst_def)
qed

lemma first_sep:
  "c \<notin> set u \<Longrightarrow> c \<notin> set v \<Longrightarrow> prefix (u @ c # x) (v @ c # y) \<Longrightarrow> u = v"
proof (induction u arbitrary: v)
  case Nil
  then show ?case by (cases v) auto
next
  case (Cons h u)
  then show ?case by (cases v) auto
qed

lemma fw_dst_tree_apart:
  assumes n: "n1 \<in> set QT_FRAMEWORKS" "n2 \<in> set QT_FRAMEWORKS" "n1 \<noteq> n2"
    and p: "p = fw_dst a n1 \<or> inside (fw_dst a n1) p"
  shows "p \<noteq> fw_dst a n2 \<and> \<not> inside (fw_dst a n2) p"
proof -
  note d = qt_names[OF n(1)] qt_names[OF n(2)]
  let ?F = "frameworks_dir a"
  from p obtain t where t: "p = ?F @ ''/'' @ n1 @ ''.framework'' @ t"
    by (auto simp: fw_dst_eq[OF n(1)] inside_def startswith_def prefix_def)
  have 1: "p \<noteq> fw_dst a n2"
  proof
    assume "p = fw_dst a n2"
    then have "n1 @ CHR ''.'' # (''framework'' @ t) = n2 @ CHR ''.'' # ''framework''"
      by (simp add: t fw_dst_eq[OF n(2)])
    then have "prefix (n1 @ CHR ''.'' # (''framework'' @ t)) (n2 @ CHR ''.'' # ''framework'')"
      by simp
    from first_sep[OF _ _ this] d n(3) show False by simp
  qed
  have 2: "\<not> inside (fw_dst a n2) p"
  proof
    assume "inside (fw_dst a n2) p"
    then have "prefix (n2 @ CHR ''.'' # ''framework/'') (n1 @ CHR ''.'' # (''framework'' @ t))"
      by (simp add: t fw_dst_eq[OF n(2)] inside_def startswith_def)
    from first_sep[OF _ _ this] d n(3) show False by simp
  qed
  from 1 2 show ?thesis ..
qed

lemma fw_dst_apart:
  assumes "n1 \<in> set QT_FRAMEWORKS" "n2 \<in> set QT_FRAMEWORKS" "n1 \<noteq> n2"
  shows "fw_dst a n1 \<noteq> fw_dst a n2 \<and> \<not> inside (fw_dst a n2) (fw_dst a n1)"
  using fw_dst_tree_apart[OF assms, of "fw_dst a n1"] by simp

lemma copy_qt_framework_keeps:
  assumes c: "copy_qt_framework a n2 w = Inr w'"
    and d: "is_dir w (fw_dst a n1)"
    and n: "n1 \<in> set QT_FRAMEWORKS" "n2 \<in> set QT_FRAMEWORKS"
  shows "is_dir w' (fw_dst a n1)"
proof (cases "n1 = n2")
  case True
  with copy_qt_framework_Inr[OF c] show ?thesis by simp
next
  case False
  note ap = fw_dst_apart[OF n False, of a]
  from c obtain w1 where
    r: "(if exists w (fw_dst a n2) then rmtree (fw_dst a n2) w else Inr w) = Inr w1"
    and t: "copytree (fw_src a n2) (fw_dst a n2) w1 = Inr w'"
    by (auto simp: copy_qt_framework_def Let_def and_then_Inr split: if_splits)
  from r d ap have "is_dir w1 (fw_dst a n1)"
    by (auto simp: is_dir_def dest!: rmtree_Inr split: if_splits)
  with copytree_other[OF t, of "fw_dst a n1"] ap show ?thesis
    by (simp add: is_dir_def)
qed

lemma copy_qt_frameworks_dirs:
  "set names \<subseteq> set QT_FRAMEWORKS \<Longrightarrow> for_each (copy_qt_framework a) names w = Inr w' \<Longrightarrow>
   (\<forall>n\<in>set QT_FRAMEWORKS. is_dir w (fw_dst a n) \<longrightarrow> is_dir w' (fw_dst a n))
   \<and> (\<forall>n\<in>set names. is_dir w' (fw_dst a n))"
proof (induction names arbitrary: w)
  case Nil
  then show ?case by simp
next
  case (Cons name names)
  then obtain w1 where 1: "copy_qt_framework a name w = Inr w1"
    and 2: "for_each (copy_qt_framework a) names w1 = Inr w'"
    by (auto simp: and_then_Inr)
  from Cons.prems(1) have sub: "set names \<subseteq> set QT_FRAMEWORKS" and nm: "name \<in> set QT_FRAMEWORKS"
    by auto
  have a1: "\<forall>n\<in>set QT_FRAMEWORKS. is_dir w (fw_dst a n) \<longrightarrow> is_dir w1 (fw_dst a n)"
    using copy_qt_framework_keeps[OF 1 _ _ nm] by blast
  have a2: "is_dir w1 (fw_dst a name)" using copy_qt_framework_Inr[OF 1] by simp
  from Cons.IH[OF sub 2] a1 a2 nm show ?case by auto
qed

lemma grows_record_event [simp]: "grows w u \<Longrightarrow> grows w (record_event e u)"
  by (auto simp: grows_def)

lemma grows_put [simp]: "grows w (put p n u) = grows w u"
  by (simp add: grows_def)

lemma grows_put_all [simp]: "grows w (put_all es u) = grows w u"
  by (simp add: grows_def)

lemma grows_record_eventD: "grows (record_event e w) w' \<Longrightarrow> grows w w'"
  by (auto simp: grows_def dest: append_prefixD)

lemma mkdir_grows: "mkdir d w = Inr w' \<Longrightarrow> grows w w'"
  by (auto dest!: mkdir_Inr)

lemma rmtree_grows: "rmtree d w = Inr w' \<Longrightarrow> grows w w'"
  by (auto dest!: rmtree_Inr simp: grows_def)

lemma copytree_grows: "copytree src dst w = Inr w' \<Longrightarrow> grows w w'"
  by (auto dest!: copytree_Inr simp: grows_def)

lemma copy2_grows: "copy2 src dst w = Inr w' \<Longrightarrow> grows w w'"
  by (auto elim!: copy2_Inr)

lemma write_text_grows: "write_text p t w = Inr w' \<Longrightarrow> grows w w'"
  by (auto simp: write_text_def split: if_splits)

lemma check_output_grows: "check_output cmd render p w = Inr (out, w') \<Longrightarrow> grows w w'"
  by (auto simp: check_output_Inr)

lemma otool_deps_grows: "otool_deps p w = Inr (deps, w') \<Longrightarrow> grows w w'"
  by (auto simp: otool_deps_def check_output_Inr split: sum.splits)

lemma install_name_tool_grows: "install_name_tool op p w = Inr w' \<Longrightarrow> grows w w'"
  by (auto simp: install_name_tool_Inr)

lemma add_rpath_if_missing_grows: "add_rpath_if_missing b r w = Inr w' \<Longrightarrow> grows w w'"
  by (auto simp: add_rpath_if_missing_def check_output_Inr split: sum.splits if_splits
      dest!: install_name_tool_grows grows_record_eventD)

lemma copy_qt_plugin_dir_grows: "copy_qt_plugin_dir a sub w = Inr w' \<Longrightarrow> grows w w'"
  by (auto simp: copy_qt_plugin_dir_def Let_def and_then_Inr split: if_splits
      dest!: rmtree_grows copytree_grows intro: grows_trans)

lemma copy_explicit_lib_grows: "copy_explicit_lib a src w = Inr w' \<Longrightarrow> grows w w'"
  by (auto simp: copy_explicit_lib_def Let_def split: if_splits dest!: copy2_grows)

lemma gather_grows: "gather a deps w q = Inr (w', q') \<Longrightarrow> grows w w'"
proof (induction deps arbitrary: w q)
  case Nil
  then show ?case by simp
next
  case (Cons dep deps)
  show ?case
  proof (cases "copied_by_walk a dep \<and> \<not> exists w (lib_dst a (Path dep))")
    case False
    have "gather a deps w q = Inr (w', q')"
      using Cons.prems unfolding gather_skip[OF False] .
    then show ?thesis by (rule Cons.IH)
  next
    case True
    from gather_copy_Inr[OF True[THEN conjunct1] True[THEN conjunct2] Cons.prems]
    obtain w1 where
      c: "copy2 (Path dep) (lib_dst a (Path dep)) w = Inr w1"
      and g: "gather a deps w1 (q @ [lib_dst a (Path dep)]) = Inr (w', q')"
      by blast
    from copy2_grows[OF c] Cons.IH[OF g] show ?thesis by (rule grows_trans)
  qed
qed

lemma walk_grows: "walk a w queue = Inr w' \<Longrightarrow> grows w w'"
proof (induction a w queue rule: walk.induct)
  case (1 a w)
  then show ?case by simp
next
  case (2 a w item queue)
  from 2(2) obtain deps w1 w2 queue' where
    o: "otool_deps item w = Inr (deps, w1)" and g: "gather a deps w1 queue = Inr (w2, queue')"
    and r: "walk a w2 queue' = Inr w'"
    by (auto split: sum.splits)
  from otool_deps_grows[OF o] gather_grows[OF g] 2(1)[OF o refl g refl r] show ?case
    by (blast intro: grows_trans)
qed

lemma copy_qt_Inr:
  "copy_qt a w = Inr w' \<longleftrightarrow>
     (\<exists>w0 w1 w2. for_each mkdir [frameworks_dir a, plugins_dir a, lib_dir a] w = Inr w0
        \<and> for_each (copy_qt_framework a) QT_FRAMEWORKS w0 = Inr w1
        \<and> for_each (copy_qt_plugin_dir a) QT_PLUGIN_SUBDIRS w1 = Inr w2
        \<and> write_qt_conf a w2 = Inr w')"
  unfolding copy_qt_def and_then_Inr by blast

lemma bundle_libs_Inr:
  "bundle_libs order a w = Inr w' \<longleftrightarrow>
     is_dir w (bundle_dir a) \<and> exists w (plugin_bin a)
     \<and> (\<exists>w1 w2. copy_qt a w = Inr w1
          \<and> copy_libs a (order (initial_binaries a w1)) w1 = Inr w2
          \<and> rewrite order a (initial_binaries a w1) w2 = Inr w')"
  by (auto simp: bundle_libs_def and_then_Inr)

lemma copy_libs_Inr:
  "copy_libs a bins w = Inr w' \<longleftrightarrow>
     (\<exists>w1. for_each (copy_explicit_lib a) (explicit_libs a) w = Inr w1 \<and> walk a w1 bins = Inr w')"
  unfolding copy_libs_def and_then_Inr by blast

lemma rewrite_Inr:
  "rewrite order a bins w = Inr w' \<longleftrightarrow>
     (\<exists>w1 w2. fix_install_ids a w = Inr w1
        \<and> remap_deps a (order (all_binaries a bins w)) w1 = Inr w2 \<and> add_rpaths a w2 = Inr w')"
  unfolding rewrite_def and_then_Inr by blast

lemma set_id_grows: "set_id p i w = Inr w' \<Longrightarrow> grows w w'"
  by (auto simp: set_id_def dest: install_name_tool_grows)

lemma set_lib_id_grows: "set_lib_id p w = Inr w' \<Longrightarrow> grows w w'"
  by (auto simp: set_lib_id_def dest: set_id_grows)

lemma set_fw_id_grows: "set_fw_id a n w = Inr w' \<Longrightarrow> grows w w'"
  by (auto simp: set_fw_id_def dest: set_id_grows split: if_splits)

lemma fix_install_ids_grows:
  assumes "fix_install_ids a w = Inr w'"
  shows "grows w w'"
proof -
  from assms obtain w1 where 1: "for_each set_lib_id (glob_dylib w (lib_dir a)) w = Inr w1"
    and 2: "for_each (set_fw_id a) QT_FRAMEWORKS w1 = Inr w'"
    by (auto simp: fix_install_ids_def and_then_Inr)
  from for_each_grows[OF 1] for_each_grows[OF 2] show ?thesis
    by (blast intro: grows_trans set_lib_id_grows set_fw_id_grows)
qed

lemma remap_dep_grows: "remap_dep a b dep w = Inr w' \<Longrightarrow> grows w w'"
  by (auto simp: remap_dep_def split: if_splits option.splits dest: install_name_tool_grows)

lemma remap_binary_grows:
  assumes "remap_binary a b w = Inr w'"
  shows "grows w w'"
proof -
  from assms obtain deps w1 where 1: "otool_deps b w = Inr (deps, w1)"
    and 2: "for_each (remap_dep a b) deps w1 = Inr w'"
    by (auto simp: remap_binary_def split: sum.splits)
  from otool_deps_grows[OF 1] for_each_grows[OF 2] show ?thesis
    by (blast intro: grows_trans remap_dep_grows)
qed

lemma remap_deps_grows: "remap_deps a bins w = Inr w' \<Longrightarrow> grows w w'"
  unfolding remap_deps_def by (erule for_each_grows) (rule remap_binary_grows)

lemma add_plugin_dylib_rpaths_grows: "add_plugin_dylib_rpaths p w = Inr w' \<Longrightarrow> grows w w'"
  by (auto simp: add_plugin_dylib_rpaths_def and_then_Inr
      dest!: add_rpath_if_missing_grows intro: grows_trans)

lemma add_fw_rpath_grows: "add_fw_rpath a n w = Inr w' \<Longrightarrow> grows w w'"
  by (auto simp: add_fw_rpath_def dest: add_rpath_if_missing_grows split: if_splits)

lemma add_rpaths_grows:
  assumes "add_rpaths a w = Inr w'"
  shows "grows w w'"
proof -
  from assms obtain w1 w2 w3 where
    1: "add_rpath_if_missing (plugin_bin a) ''@loader_path/Frameworks'' w = Inr w1"
    and 2: "add_rpath_if_missing (plugin_bin a) (gimp_app a @ ''/Contents/Resources'') w1 = Inr w2"
    and 3: "for_each add_plugin_dylib_rpaths (rglob_dylib w2 (plugins_dir a)) w2 = Inr w3"
    and 4: "for_each (add_fw_rpath a) QT_FRAMEWORKS w3 = Inr w'"
    by (auto simp: add_rpaths_def and_then_Inr)
  from add_rpath_if_missing_grows[OF 1] add_rpath_if_missing_grows[OF 2]
    for_each_grows[OF 3] for_each_grows[OF 4]
  show ?thesis
    by (blast intro: grows_trans add_plugin_dylib_rpaths_grows add_fw_rpath_grows)
qed

lemma rewrite_grows: "rewrite order a bins w = Inr w' \<Longrightarrow> grows w w'"
  by (auto simp: rewrite_Inr dest!: fix_install_ids_grows remap_deps_grows add_rpaths_grows
      intro: grows_trans)

lemma copy_libs_grows:
  assumes "copy_libs a bins w = Inr w'"
  shows "grows w w'"
proof -
  from assms obtain w1 where
    1: "for_each (copy_explicit_lib a) (explicit_libs a) w = Inr w1" and 2: "walk a w1 bins = Inr w'"
    by (auto simp: copy_libs_Inr)
  from for_each_grows[OF 1] walk_grows[OF 2] show ?thesis
    by (blast intro: grows_trans copy_explicit_lib_grows)
qed

lemma write_qt_conf_grows: "write_qt_conf a w = Inr w' \<Longrightarrow> grows w w'"
  by (auto simp: write_qt_conf_def dest: write_text_grows)

lemma copies_append [simp]: "copies (xs @ ys) = copies xs @ copies ys"
  by (simp add: copies_def)

lemma copies_Nil [simp]: "copies [] = []"
  by (simp add: copies_def)

lemma processed_append [simp]: "processed (xs @ ys) = processed xs @ processed ys"
  by (simp add: processed_def)

lemma processed_Nil [simp]: "processed [] = []"
  by (simp add: processed_def)

lemma new_events_self [simp]: "new_events w w = []"
  by (simp add: new_events_def)

lemma lib_copies_refl [simp]: "lib_copies a w w"
  by (simp add: lib_copies_def)

lemma lib_copiesD:
  assumes "lib_copies a w w'"
  shows "grows w w'"
    and "exists w p \<Longrightarrow> lookup w' p = lookup w p"
    and "c \<in> set (copies (new_events w w')) \<Longrightarrow>
           snd c = lib_dst a (fst c) \<and> \<not> exists w (snd c)"
    and "distinct (map snd (copies (new_events w w')))"
    and "exists w' p \<longleftrightarrow> exists w p \<or> p \<in> snd ` set (copies (new_events w w'))"
    and "c \<in> set (copies (new_events w w')) \<Longrightarrow>
           exists w' (fst c) \<and> lookup w' (snd c) = lookup w' (fst c)"
proof -
  note all = assms[unfolded lib_copies_def]
  show "grows w w'" by (rule all[THEN conjunct1])
  show "exists w p \<Longrightarrow> lookup w' p = lookup w p"
    by (rule all[THEN conjunct2, THEN conjunct1, rule_format])
  show "c \<in> set (copies (new_events w w')) \<Longrightarrow>
           snd c = lib_dst a (fst c) \<and> \<not> exists w (snd c)"
    by (rule all[THEN conjunct2, THEN conjunct2, THEN conjunct1, THEN bspec])
  show "distinct (map snd (copies (new_events w w')))"
    by (rule all[THEN conjunct2, THEN conjunct2, THEN conjunct2, THEN conjunct1])
  show "exists w' p \<longleftrightarrow> exists w p \<or> p \<in> snd ` set (copies (new_events w w'))"
    by (rule all[THEN conjunct2, THEN conjunct2, THEN conjunct2, THEN conjunct2, THEN conjunct1,
          THEN spec])
  show "c \<in> set (copies (new_events w w')) \<Longrightarrow>
           exists w' (fst c) \<and> lookup w' (snd c) = lookup w' (fst c)"
    by (rule all[THEN conjunct2, THEN conjunct2, THEN conjunct2, THEN conjunct2, THEN conjunct2,
          THEN bspec])
qed

lemma lib_copies_trans:
  assumes 1: "lib_copies a w w1" and 2: "lib_copies a w1 w2"
  shows "lib_copies a w w2"
proof -
  let ?c1 = "copies (new_events w w1)" and ?c2 = "copies (new_events w1 w2)"
  note g = lib_copiesD(1)[OF 1] lib_copiesD(1)[OF 2]
  have ne: "copies (new_events w w2) = ?c1 @ ?c2"
    using new_events_trans[OF g] by simp
  have ew: "\<And>p. exists w p \<Longrightarrow> exists w1 p" using lib_copiesD(5)[OF 1] by simp
  have a: "\<forall>p. exists w p \<longrightarrow> lookup w2 p = lookup w p"
    using lib_copiesD(2)[OF 1] lib_copiesD(2)[OF 2] ew by simp
  have b: "\<forall>c\<in>set (?c1 @ ?c2). snd c = lib_dst a (fst c) \<and> \<not> exists w (snd c)"
  proof
    fix c assume "c \<in> set (?c1 @ ?c2)"
    then consider "c \<in> set ?c1" | "c \<in> set ?c2" by auto
    then show "snd c = lib_dst a (fst c) \<and> \<not> exists w (snd c)"
    proof cases
      case 1
      then show ?thesis using lib_copiesD(3)[OF \<open>lib_copies a w w1\<close>, of c] by blast
    next
      case 2
      then show ?thesis using lib_copiesD(3)[OF \<open>lib_copies a w1 w2\<close>, of c] ew by blast
    qed
  qed
  have "snd ` set ?c1 \<inter> snd ` set ?c2 = {}"
  proof (rule ccontr)
    assume "snd ` set ?c1 \<inter> snd ` set ?c2 \<noteq> {}"
    then obtain c1 c2 where c: "c1 \<in> set ?c1" "c2 \<in> set ?c2" "snd c1 = snd c2" by force
    from c(1) have "exists w1 (snd c1)" using lib_copiesD(5)[OF 1, of "snd c1"] by simp
    moreover from c(2) have "\<not> exists w1 (snd c2)" using lib_copiesD(3)[OF 2, of c2] by blast
    ultimately show False using c(3) by simp
  qed
  with lib_copiesD(4)[OF 1] lib_copiesD(4)[OF 2] have c: "distinct (map snd (?c1 @ ?c2))"
    by simp
  have d: "\<forall>p. exists w2 p \<longleftrightarrow> exists w p \<or> p \<in> snd ` set (?c1 @ ?c2)"
  proof
    fix p
    show "exists w2 p \<longleftrightarrow> exists w p \<or> p \<in> snd ` set (?c1 @ ?c2)"
      unfolding lib_copiesD(5)[OF 2, of p] lib_copiesD(5)[OF 1, of p]
      by (simp add: image_Un disj_assoc)
  qed
  have e: "\<forall>c\<in>set (?c1 @ ?c2). exists w2 (fst c) \<and> lookup w2 (snd c) = lookup w2 (fst c)"
  proof
    fix c assume "c \<in> set (?c1 @ ?c2)"
    then consider "c \<in> set ?c1" | "c \<in> set ?c2" by auto
    then show "exists w2 (fst c) \<and> lookup w2 (snd c) = lookup w2 (fst c)"
    proof cases
      case 1
      note k = lib_copiesD(6)[OF \<open>lib_copies a w w1\<close> 1]
      from 1 have "exists w1 (snd c)" using lib_copiesD(5)[OF \<open>lib_copies a w w1\<close>, of "snd c"] by simp
      with k lib_copiesD(2)[OF 2, of "fst c"] lib_copiesD(2)[OF 2, of "snd c"]
      show ?thesis by (simp add: exists_def)
    next
      case 2
      then show ?thesis by (rule lib_copiesD(6)[OF \<open>lib_copies a w1 w2\<close>])
    qed
  qed
  have g': "grows w w2" using g by (rule grows_trans)
  show ?thesis
    unfolding lib_copies_def ne by (intro conjI g' a b c d e)
qed

lemma lib_copies_copy2:
  assumes c: "copy2 src dst w = Inr w'" and n: "\<not> exists w dst"
    and d: "dst = lib_dst a src"
  shows "lib_copies a w w' \<and> new_events w w' = [Copy2 src dst]"
proof -
  from c obtain n' where n': "lookup w src = Some n'"
    and w': "w' = record_event (Copy2 src dst) (put dst n' w)"
    by (rule copy2_Inr)
  then have ne: "new_events w w' = [Copy2 src dst]" by (simp add: new_events_def)
  have k: "exists w' src \<and> lookup w' dst = lookup w' src"
    using n' by (simp add: w' exists_def)
  have "\<And>p. exists w' p \<longleftrightarrow> exists w p \<or> p = dst"
    by (auto simp: w' exists_def)
  moreover have "\<And>p. exists w p \<Longrightarrow> lookup w' p = lookup w p"
    using n by (auto simp: w')
  moreover have "grows w w'" using c by (rule copy2_grows)
  ultimately show ?thesis using n d k
    by (simp add: lib_copies_def ne copies_def)
qed

lemma lib_copies_otool:
  assumes "otool_deps item w = Inr (deps, w')"
  shows "lib_copies a w w' \<and> new_events w w' = [Exec [''otool'', ''-L'', item]]
    \<and> deps = reported w item \<and> exists w item"
  using assms
  by (auto simp: otool_deps_def check_output_Inr lib_copies_def new_events_def copies_def
      reported_def exists_def grows_def split: sum.splits)

lemma gather_spec:
  "gather a deps w q = Inr (w', q') \<Longrightarrow>
   lib_copies a w w'
   \<and> processed (new_events w w') = []
   \<and> q' = q @ map snd (copies (new_events w w'))
   \<and> (\<forall>c\<in>set (copies (new_events w w')).
         \<exists>dep\<in>set deps. copied_by_walk a dep \<and> fst c = Path dep)
   \<and> (\<forall>dep\<in>set deps. copied_by_walk a dep \<longrightarrow> exists w' (lib_dst a (Path dep)))"
proof (induction deps arbitrary: w q)
  case Nil
  then show ?case by simp
next
  case (Cons dep deps)
  let ?dst = "lib_dst a (Path dep)"
  show ?case
  proof (cases "copied_by_walk a dep \<and> \<not> exists w ?dst")
    case False
    have g: "gather a deps w q = Inr (w', q')"
      using Cons.prems unfolding gather_skip[OF False] .
    note ih = Cons.IH[OF g]
    have "copied_by_walk a dep \<longrightarrow> exists w' ?dst"
      using False lib_copiesD(5)[OF ih[THEN conjunct1], of ?dst] by blast
    with ih show ?thesis by auto
  next
    case True
    from gather_copy_Inr[OF True[THEN conjunct1] True[THEN conjunct2] Cons.prems]
    obtain w1 where
      c: "copy2 (Path dep) ?dst w = Inr w1" and g: "gather a deps w1 (q @ [?dst]) = Inr (w', q')"
      by blast
    note ih = Cons.IH[OF g]
    from True lib_copies_copy2[OF c] have
      l1: "lib_copies a w w1" and n1: "new_events w w1 = [Copy2 (Path dep) ?dst]" by simp_all
    note l2 = ih[THEN conjunct1]
    have l: "lib_copies a w w'" using l1 l2 by (rule lib_copies_trans)
    have ne: "new_events w w' = Copy2 (Path dep) ?dst # new_events w1 w'"
      using new_events_trans[OF lib_copiesD(1)[OF l1] lib_copiesD(1)[OF l2]] n1 by simp
    have e1: "exists w1 ?dst" using lib_copiesD(5)[OF l1, of ?dst] n1 by (simp add: copies_def)
    then have e: "exists w' ?dst" using lib_copiesD(5)[OF l2, of ?dst] by simp
    have p: "processed (new_events w w') = []"
      using ih by (simp add: ne processed_def)
    have q: "q' = q @ map snd (copies (new_events w w'))"
      using ih by (simp add: ne copies_def)
    have a4: "\<forall>c\<in>set (copies (new_events w w')).
         \<exists>d\<in>set (dep # deps). copied_by_walk a d \<and> fst c = Path d"
    proof
      fix c assume "c \<in> set (copies (new_events w w'))"
      then have "c = (Path dep, ?dst) \<or> c \<in> set (copies (new_events w1 w'))"
        by (simp add: ne copies_def)
      then show "\<exists>d\<in>set (dep # deps). copied_by_walk a d \<and> fst c = Path d"
      proof
        assume "c = (Path dep, ?dst)"
        with True show ?thesis by auto
      next
        assume "c \<in> set (copies (new_events w1 w'))"
        with ih obtain d where "d \<in> set deps" "copied_by_walk a d \<and> fst c = Path d" by blast
        then show ?thesis by auto
      qed
    qed
    have a5: "\<forall>d\<in>set (dep # deps). copied_by_walk a d \<longrightarrow> exists w' (lib_dst a (Path d))"
      using ih e by simp
    from l p q a4 a5 show ?thesis by (intro conjI)
  qed
qed

lemma reported_kept:
  "lib_copies a w w' \<Longrightarrow> exists w item \<Longrightarrow> reported w' item = reported w item"
  by (simp add: reported_def lib_copiesD(2))

lemma exists_kept: "lib_copies a w w' \<Longrightarrow> exists w p \<Longrightarrow> exists w' p"
  using lib_copiesD(5)[of a w w' p] by simp

lemma walk_spec:
  "walk a w queue = Inr w' \<Longrightarrow>
   lib_copies a w w'
   \<and> processed (new_events w w') = queue @ map snd (copies (new_events w w'))
   \<and> (\<forall>c\<in>set (copies (new_events w w')).
         \<exists>item\<in>set (processed (new_events w w')). \<exists>dep\<in>set (reported w' item).
            copied_by_walk a dep \<and> fst c = Path dep)
   \<and> (\<forall>item\<in>set (processed (new_events w w')). \<forall>dep\<in>set (reported w' item).
         copied_by_walk a dep \<longrightarrow> exists w' (lib_dst a (Path dep)))"
proof (induction a w queue rule: walk.induct)
  case (1 a w)
  then show ?case by simp
next
  case (2 a w item queue)
  from 2(2) obtain deps w1 w2 q2 where
    o: "otool_deps item w = Inr (deps, w1)" and g: "gather a deps w1 queue = Inr (w2, q2)"
    and r: "walk a w2 q2 = Inr w'"
    by (auto split: sum.splits)
  note os = lib_copies_otool[OF o, of a]
  note gs = gather_spec[OF g]
  note ih = 2(1)[OF o refl g refl r]
  have l1: "lib_copies a w w1" and n1: "new_events w w1 = [Exec [''otool'', ''-L'', item]]"
    and deps: "deps = reported w item" and ex: "exists w item"
    using os by simp_all
  have l2: "lib_copies a w1 w2" and l3: "lib_copies a w2 w'"
    using gs ih by simp_all
  have l12: "lib_copies a w w2" using l1 l2 by (rule lib_copies_trans)
  have l: "lib_copies a w w'" using l12 l3 by (rule lib_copies_trans)
  have ne: "new_events w w' = Exec [''otool'', ''-L'', item] # new_events w1 w2 @ new_events w2 w'"
    using new_events_trans[OF lib_copiesD(1)[OF l12] lib_copiesD(1)[OF l3]]
      new_events_trans[OF lib_copiesD(1)[OF l1] lib_copiesD(1)[OF l2]] n1 by simp
  let ?cg = "copies (new_events w1 w2)" and ?c3 = "copies (new_events w2 w')"
  have cs: "copies (new_events w w') = ?cg @ ?c3"
    by (simp add: ne copies_def)
  have q2: "q2 = queue @ map snd ?cg" using gs by simp
  have pr: "processed (new_events w w') = item # queue @ map snd ?cg @ map snd ?c3"
    using gs ih by (simp add: ne processed_def q2)
  have pr3: "processed (new_events w2 w') = queue @ map snd ?cg @ map snd ?c3"
    using ih by (simp add: q2)
  have rep: "reported w' item = deps"
    using reported_kept[OF l ex] deps by simp
  have a3: "\<forall>c\<in>set (?cg @ ?c3).
         \<exists>i\<in>set (item # queue @ map snd ?cg @ map snd ?c3). \<exists>dep\<in>set (reported w' i).
            copied_by_walk a dep \<and> fst c = Path dep"
  proof
    fix c assume "c \<in> set (?cg @ ?c3)"
    then consider "c \<in> set ?cg" | "c \<in> set ?c3" by auto
    then show "\<exists>i\<in>set (item # queue @ map snd ?cg @ map snd ?c3). \<exists>dep\<in>set (reported w' i).
            copied_by_walk a dep \<and> fst c = Path dep"
    proof cases
      case 1
      with gs obtain dep where "dep \<in> set deps" "copied_by_walk a dep \<and> fst c = Path dep"
        by blast
      with rep show ?thesis by auto
    next
      case 2
      with ih obtain i dep where "i \<in> set (processed (new_events w2 w'))"
        "dep \<in> set (reported w' i)" "copied_by_walk a dep \<and> fst c = Path dep" by blast
      then show ?thesis unfolding pr3 by auto
    qed
  qed
  have a4: "\<forall>i\<in>set (item # queue @ map snd ?cg @ map snd ?c3). \<forall>dep\<in>set (reported w' i).
         copied_by_walk a dep \<longrightarrow> exists w' (lib_dst a (Path dep))"
  proof (intro ballI impI)
    fix i dep
    assume i: "i \<in> set (item # queue @ map snd ?cg @ map snd ?c3)"
      and d: "dep \<in> set (reported w' i)" "copied_by_walk a dep"
    show "exists w' (lib_dst a (Path dep))"
    proof (cases "i = item")
      case True
      with d rep have "dep \<in> set deps" by simp
      with gs d(2) have "exists w2 (lib_dst a (Path dep))" by blast
      then show ?thesis by (rule exists_kept[OF l3])
    next
      case False
      with i have "i \<in> set (processed (new_events w2 w'))" unfolding pr3 by simp
      with ih d show ?thesis by blast
    qed
  qed
  show ?case
    unfolding cs pr by (intro conjI l a3 a4) simp
qed

lemma copy_explicit_lib_spec:
  assumes "copy_explicit_lib a src w = Inr w'"
  shows "lib_copies a w w'"
proof (cases "exists w src \<and> \<not> exists w (lib_dst a src)")
  case True
  with assms have "copy2 src (lib_dst a src) w = Inr w'"
    by (simp add: copy_explicit_lib_def Let_def)
  from lib_copies_copy2[OF this] True show ?thesis by simp
next
  case False
  with assms have "w' = w" by (auto simp: copy_explicit_lib_def Let_def split: if_splits)
  then show ?thesis by simp
qed

lemma copy_libs_spec:
  assumes "copy_libs a bins w = Inr w'"
  shows "lib_copies a w w'"
proof -
  from assms obtain w1 where
    1: "for_each (copy_explicit_lib a) (explicit_libs a) w = Inr w1" and 2: "walk a w1 bins = Inr w'"
    by (auto simp: copy_libs_Inr)
  have "lib_copies a w w1"
    by (rule for_each_invariant[OF 1, where I = "lib_copies a w"])
       (auto intro: lib_copies_trans copy_explicit_lib_spec)
  with walk_spec[OF 2] show ?thesis by (blast intro: lib_copies_trans)
qed

lemma lib_copies_names:
  assumes "lib_copies a w w'"
  shows "distinct (map (path_name \<circ> fst) (copies (new_events w w')))"
proof -
  have "map snd (copies (new_events w w'))
      = map (joinpath (lib_dir a)) (map (path_name \<circ> fst) (copies (new_events w w')))"
    using lib_copiesD(3)[OF assms] by (auto simp: map_eq_conv lib_dst_def)
  with lib_copiesD(4)[OF assms] show ?thesis
    by (metis distinct_map)
qed

lemma missing_same_files: "files w' = files w \<Longrightarrow> missing a w' = missing a w"
  by (simp add: missing_def cands_def exists_def lookup_def)

lemma cands_same_files: "files w' = files w \<Longrightarrow> cands a w' = cands a w"
  by (simp add: cands_def)

lemma gather_count:
  "set deps \<subseteq> cands a w \<Longrightarrow> gather a deps w q = Inr (w', q') \<Longrightarrow>
   length (copies (new_events w w')) + card (missing a w') \<le> card (missing a w)"
proof (induction deps arbitrary: w q)
  case Nil
  then show ?case by simp
next
  case (Cons dep deps)
  let ?dst = "lib_dst a (Path dep)"
  show ?case
  proof (cases "copied_by_walk a dep \<and> \<not> exists w ?dst")
    case False
    have g: "gather a deps w q = Inr (w', q')"
      using Cons.prems(2) unfolding gather_skip[OF False] .
    from Cons.prems(1) have "set deps \<subseteq> cands a w" by simp
    from Cons.IH[OF this g] show ?thesis .
  next
    case True
    from Cons.prems(2)[unfolded gather_copy[OF True[THEN conjunct1] True[THEN conjunct2]]]
    obtain w1 where
      c: "copy2 (Path dep) ?dst w = Inr w1" and g: "gather a deps w1 (q @ [?dst]) = Inr (w', q')"
      by (auto split: sum.splits)
    from True Cons.prems(1) have
      st: "missing a w1 \<subset> missing a w \<and> cands a w \<subseteq> cands a w1"
      by (intro copy2_step[OF c]) (auto simp: copied_by_walk_def)
    with Cons.prems(1) have "set deps \<subseteq> cands a w1" by auto
    note ih = Cons.IH[OF this g]
    from st have lt: "card (missing a w1) < card (missing a w)"
      using finite_missing[of a w] by (simp add: psubset_card_mono)
    from True lib_copies_copy2[OF c, of a] have
      n1: "new_events w w1 = [Copy2 (Path dep) ?dst]" by simp
    have g1: "grows w w1" using c by (rule copy2_grows)
    have "new_events w w' = Copy2 (Path dep) ?dst # new_events w1 w'"
      using new_events_trans[OF g1 gather_grows[OF g]] n1 by simp
    then have "length (copies (new_events w w')) = Suc (length (copies (new_events w1 w')))"
      by (simp add: copies_def)
    with ih lt show ?thesis by simp
  qed
qed

lemma walk_count:
  "walk a w queue = Inr w' \<Longrightarrow>
   length (copies (new_events w w')) + card (missing a w') \<le> card (missing a w)"
proof (induction a w queue rule: walk.induct)
  case (1 a w)
  then show ?case by simp
next
  case (2 a w item queue)
  from 2(2) obtain deps w1 w2 q2 where
    o: "otool_deps item w = Inr (deps, w1)" and g: "gather a deps w1 queue = Inr (w2, q2)"
    and r: "walk a w2 q2 = Inr w'"
    by (auto split: sum.splits)
  note ih = 2(1)[OF o refl g refl r]
  from otool_deps_cands[OF o, of a] have sub: "set deps \<subseteq> cands a w" and fs: "files w1 = files w"
    by simp_all
  from sub have "set deps \<subseteq> cands a w1" using cands_same_files[OF fs] by simp
  note gc = gather_count[OF this g]
  have m1: "missing a w1 = missing a w" using fs by (rule missing_same_files)
  have n1: "new_events w w1 = [Exec [''otool'', ''-L'', item]]"
    using lib_copies_otool[OF o, of a] by simp
  have "new_events w w' = new_events w w1 @ new_events w1 w2 @ new_events w2 w'"
    using new_events_trans[OF otool_deps_grows[OF o] grows_trans[OF gather_grows[OF g] walk_grows[OF r]]]
      new_events_trans[OF gather_grows[OF g] walk_grows[OF r]] by simp
  then have "length (copies (new_events w w'))
      = length (copies (new_events w1 w2)) + length (copies (new_events w2 w'))"
    by (simp add: n1 copies_def)
  with ih gc m1 show ?case by simp
qed

lemma quietI: "trace w' = trace w @ evs \<Longrightarrow> copies evs = [] \<Longrightarrow> quiet w w'"
  by (simp add: quiet_def grows_def new_events_def)

lemma quiet_refl [simp]: "quiet w w"
  by (simp add: quiet_def)

lemma quiet_trans: "quiet w w1 \<Longrightarrow> quiet w1 w2 \<Longrightarrow> quiet w w2"
  unfolding quiet_def using new_events_trans[of w w1 w2] by (auto intro: grows_trans)

lemma quiet_record_event [simp]:
  "quiet w u \<Longrightarrow> copy_of e = [] \<Longrightarrow> quiet w (record_event e u)"
  by (auto simp: quiet_def grows_def new_events_def copies_def prefix_def)

lemma quiet_put [simp]: "quiet w (put p n u) = quiet w u"
  by (simp add: quiet_def grows_def new_events_def)

lemma quiet_put_all [simp]: "quiet w (put_all es u) = quiet w u"
  by (simp add: quiet_def grows_def new_events_def)

lemma for_each_quiet:
  assumes "for_each body xs w = Inr w'"
    and "\<And>x u u'. x \<in> set xs \<Longrightarrow> body x u = Inr u' \<Longrightarrow> quiet u u'"
  shows "quiet w w'"
  by (rule for_each_invariant[OF assms(1), where I = "quiet w"])
     (auto intro: quiet_trans assms(2))

lemma mkdir_quiet: "mkdir d w = Inr w' \<Longrightarrow> quiet w w'"
  by (auto dest!: mkdir_Inr)

lemma rmtree_quiet: "rmtree d w = Inr w' \<Longrightarrow> quiet w w'"
  by (auto dest!: rmtree_Inr intro: quietI[where evs = "[Rmtree d]"] simp: copies_def)

lemma copytree_quiet: "copytree src dst w = Inr w' \<Longrightarrow> quiet w w'"
  by (auto dest!: copytree_Inr intro: quietI[where evs = "[Copytree src dst]"] simp: copies_def)

lemma write_text_quiet: "write_text p t w = Inr w' \<Longrightarrow> quiet w w'"
  by (auto simp: write_text_def split: if_splits)

lemma otool_deps_quiet: "otool_deps p w = Inr (deps, w') \<Longrightarrow> quiet w w'"
  by (auto simp: otool_deps_def check_output_Inr split: sum.splits)

lemma install_name_tool_quiet: "install_name_tool op p w = Inr w' \<Longrightarrow> quiet w w'"
  by (auto simp: install_name_tool_Inr)

lemma add_rpath_if_missing_quiet:
  assumes "add_rpath_if_missing b r w = Inr w'"
  shows "quiet w w'"
proof -
  let ?w1 = "record_event (Exec [''otool'', ''-l'', b]) w"
  have q: "quiet w ?w1" by simp
  from assms have "w' = ?w1 \<or> install_name_tool (AddRpath r) b ?w1 = Inr w'"
    by (auto simp: add_rpath_if_missing_def check_output_Inr split: sum.splits if_splits)
  then show ?thesis
  proof
    assume "w' = ?w1" with q show ?thesis by simp
  next
    assume "install_name_tool (AddRpath r) b ?w1 = Inr w'"
    from q install_name_tool_quiet[OF this] show ?thesis by (rule quiet_trans)
  qed
qed

lemma copy_qt_quiet:
  assumes "copy_qt a w = Inr w'"
  shows "quiet w w'"
proof -
  from assms obtain w0 w1 w2 where
    m: "for_each mkdir [frameworks_dir a, plugins_dir a, lib_dir a] w = Inr w0"
    and f: "for_each (copy_qt_framework a) QT_FRAMEWORKS w0 = Inr w1"
    and p: "for_each (copy_qt_plugin_dir a) QT_PLUGIN_SUBDIRS w1 = Inr w2"
    and c: "write_qt_conf a w2 = Inr w'"
    by (auto simp: copy_qt_Inr)
  have 1: "quiet w w0" using for_each_quiet[OF m] mkdir_quiet by blast
  have fq: "\<And>n u u'. copy_qt_framework a n u = Inr u' \<Longrightarrow> quiet u u'"
    by (auto simp: copy_qt_framework_def Let_def and_then_Inr split: if_splits
        dest!: rmtree_quiet copytree_quiet intro: quiet_trans)
  have pq: "\<And>n u u'. copy_qt_plugin_dir a n u = Inr u' \<Longrightarrow> quiet u u'"
    by (auto simp: copy_qt_plugin_dir_def Let_def and_then_Inr split: if_splits
        dest!: rmtree_quiet copytree_quiet intro: quiet_trans)
  have 2: "quiet w0 w1" using for_each_quiet[OF f] fq by blast
  have 3: "quiet w1 w2" using for_each_quiet[OF p] pq by blast
  have 4: "quiet w2 w'" using c by (auto simp: write_qt_conf_def dest: write_text_quiet)
  from 1 2 3 4 show ?thesis by (blast intro: quiet_trans)
qed

lemma rewrite_quiet:
  assumes "rewrite order a bins w = Inr w'"
  shows "quiet w w'"
proof -
  from assms obtain w1 w2 where f: "fix_install_ids a w = Inr w1"
    and r: "remap_deps a (order (all_binaries a bins w)) w1 = Inr w2" and p: "add_rpaths a w2 = Inr w'"
    by (auto simp: rewrite_Inr)
  from f obtain u where f1: "for_each set_lib_id (glob_dylib w (lib_dir a)) w = Inr u"
    and f2: "for_each (set_fw_id a) QT_FRAMEWORKS u = Inr w1"
    by (auto simp: fix_install_ids_def and_then_Inr)
  have "\<And>x u u'. set_lib_id x u = Inr u' \<Longrightarrow> quiet u u'"
    by (auto simp: set_lib_id_def set_id_def dest: install_name_tool_quiet)
  with for_each_quiet[OF f1] have 1: "quiet w u" by blast
  have "\<And>x u u'. set_fw_id a x u = Inr u' \<Longrightarrow> quiet u u'"
    by (auto simp: set_fw_id_def set_id_def dest: install_name_tool_quiet split: if_splits)
  with for_each_quiet[OF f2] have 2: "quiet u w1" by blast
  have rd: "\<And>b x u u'. remap_dep a b x u = Inr u' \<Longrightarrow> quiet u u'"
    by (auto simp: remap_dep_def split: if_splits option.splits dest: install_name_tool_quiet)
  have rb: "\<And>b u u'. remap_binary a b u = Inr u' \<Longrightarrow> quiet u u'"
  proof -
    fix b u u' assume "remap_binary a b u = Inr u'"
    then obtain deps u1 where o: "otool_deps b u = Inr (deps, u1)"
      and l: "for_each (remap_dep a b) deps u1 = Inr u'"
      by (auto simp: remap_binary_def split: sum.splits)
    from otool_deps_quiet[OF o] for_each_quiet[OF l] rd show "quiet u u'"
      by (blast intro: quiet_trans)
  qed
  have 3: "quiet w1 w2" using r for_each_quiet rb unfolding remap_deps_def by blast
  from p obtain v1 v2 v3 where
    p1: "add_rpath_if_missing (plugin_bin a) ''@loader_path/Frameworks'' w2 = Inr v1"
    and p2: "add_rpath_if_missing (plugin_bin a) (gimp_app a @ ''/Contents/Resources'') v1 = Inr v2"
    and p3: "for_each add_plugin_dylib_rpaths (rglob_dylib v2 (plugins_dir a)) v2 = Inr v3"
    and p4: "for_each (add_fw_rpath a) QT_FRAMEWORKS v3 = Inr w'"
    by (auto simp: add_rpaths_def and_then_Inr)
  have "\<And>x u u'. add_plugin_dylib_rpaths x u = Inr u' \<Longrightarrow> quiet u u'"
    by (auto simp: add_plugin_dylib_rpaths_def and_then_Inr
        dest!: add_rpath_if_missing_quiet intro: quiet_trans)
  with for_each_quiet[OF p3] have 6: "quiet v2 v3" by blast
  have "\<And>x u u'. add_fw_rpath a x u = Inr u' \<Longrightarrow> quiet u u'"
    by (auto simp: add_fw_rpath_def dest: add_rpath_if_missing_quiet split: if_splits)
  with for_each_quiet[OF p4] have 7: "quiet v3 w'" by blast
  from 1 2 3 add_rpath_if_missing_quiet[OF p1] add_rpath_if_missing_quiet[OF p2] 6 7
  show ?thesis by (blast intro: quiet_trans)
qed

lemma bundle_copies:
  assumes "bundle_libs order a w = Inr w'"
  obtains w1 w2 where "copy_qt a w = Inr w1"
    "copy_libs a (order (initial_binaries a w1)) w1 = Inr w2"
    "rewrite order a (initial_binaries a w1) w2 = Inr w'"
    "copies (new_events w w') = copies (new_events w1 w2)"
proof -
  from assms obtain w1 w2 where 1: "copy_qt a w = Inr w1"
    and 2: "copy_libs a (order (initial_binaries a w1)) w1 = Inr w2"
    and 3: "rewrite order a (initial_binaries a w1) w2 = Inr w'"
    by (auto simp: bundle_libs_Inr)
  note q1 = copy_qt_quiet[OF 1] and q3 = rewrite_quiet[OF 3] and g2 = copy_libs_grows[OF 2]
  have g1: "grows w w1" and g3: "grows w2 w'" using q1 q3 by (simp_all add: quiet_def)
  have "new_events w w' = new_events w w1 @ new_events w1 w2 @ new_events w2 w'"
    using new_events_trans[OF g1 grows_trans[OF g2 g3]] new_events_trans[OF g2 g3] by simp
  then have "copies (new_events w w') = copies (new_events w1 w2)"
    using q1 q3 by (simp add: quiet_def)
  with 1 2 3 show ?thesis using that by blast
qed

lemma in_paths: "p \<in> set (paths w) \<longleftrightarrow> exists w p"
  by (auto simp: paths_def exists_def lookup_def map_of_eq_None_iff)

lemma walk_picks_cong: "set t1 = set t2 \<Longrightarrow> walk_picks a t1 ds = walk_picks a t2 ds"
proof (induction ds arbitrary: t1 t2)
  case Nil
  then show ?case by simp
next
  case (Cons d ds)
  have "walk_picks a (lib_dst a (Path d) # t1) ds = walk_picks a (lib_dst a (Path d) # t2) ds"
    by (rule Cons.IH) (simp add: Cons.prems)
  moreover have "walk_picks a t1 ds = walk_picks a t2 ds"
    by (rule Cons.IH) (rule Cons.prems)
  ultimately show ?case using Cons.prems by simp
qed

lemma walk_picks_append:
  "walk_picks a t (xs @ ys)
     = walk_picks a t xs @ walk_picks a (map snd (walk_picks a t xs) @ t) ys"
proof (induction xs arbitrary: t)
  case Nil
  then show ?case by simp
next
  case (Cons x xs)
  let ?d = "lib_dst a (Path x)"
  show ?case
  proof (cases "copied_by_walk a x \<and> ?d \<notin> set t")
    case True
    have "walk_picks a (map snd (walk_picks a (?d # t) xs) @ ?d # t) ys
        = walk_picks a (?d # map snd (walk_picks a (?d # t) xs) @ t) ys"
      by (rule walk_picks_cong) auto
    with True Cons.IH[of "?d # t"] show ?thesis by simp
  next
    case False
    with Cons.IH[of t] show ?thesis by auto
  qed
qed

lemma gather_picks:
  "gather a deps w q = Inr (w', q') \<Longrightarrow>
   copies (new_events w w') = walk_picks a (paths w) deps"
proof (induction deps arbitrary: w q)
  case Nil
  then show ?case by simp
next
  case (Cons dep deps)
  let ?dst = "lib_dst a (Path dep)"
  show ?case
  proof (cases "copied_by_walk a dep \<and> \<not> exists w ?dst")
    case False
    have g: "gather a deps w q = Inr (w', q')"
      using Cons.prems unfolding gather_skip[OF False] .
    from Cons.IH[OF g] False show ?thesis by (auto simp: in_paths)
  next
    case True
    from gather_copy_Inr[OF True[THEN conjunct1] True[THEN conjunct2] Cons.prems]
    obtain w1 where
      c: "copy2 (Path dep) ?dst w = Inr w1" and g: "gather a deps w1 (q @ [?dst]) = Inr (w', q')"
      by blast
    from True lib_copies_copy2[OF c] have
      l1: "lib_copies a w w1" and n1: "new_events w w1 = [Copy2 (Path dep) ?dst]" by simp_all
    have ne: "new_events w w' = Copy2 (Path dep) ?dst # new_events w1 w'"
      using new_events_trans[OF lib_copiesD(1)[OF l1] gather_grows[OF g]] n1 by simp
    have "set (paths w1) = set (?dst # paths w)"
      using lib_copiesD(5)[OF l1] n1 by (auto simp: in_paths copies_def)
    then have "walk_picks a (paths w1) deps = walk_picks a (?dst # paths w) deps"
      by (rule walk_picks_cong)
    with Cons.IH[OF g] True show ?thesis
      by (simp add: ne copies_def in_paths)
  qed
qed

lemma walk_picks_spec:
  "walk a w queue = Inr w' \<Longrightarrow>
   copies (new_events w w')
     = walk_picks a (paths w) (concat (map (reported w') (processed (new_events w w'))))"
proof (induction a w queue rule: walk.induct)
  case (1 a w)
  then show ?case by simp
next
  case (2 a w item queue)
  from 2(2) obtain deps w1 w2 q2 where
    o: "otool_deps item w = Inr (deps, w1)" and g: "gather a deps w1 queue = Inr (w2, q2)"
    and r: "walk a w2 q2 = Inr w'"
    by (auto split: sum.splits)
  note os = lib_copies_otool[OF o, of a]
  note gs = gather_spec[OF g]
  note ws = walk_spec[OF r]
  note ih = 2(1)[OF o refl g refl r]
  have l1: "lib_copies a w w1" and n1: "new_events w w1 = [Exec [''otool'', ''-L'', item]]"
    and deps: "deps = reported w item" and ex: "exists w item"
    using os by simp_all
  have l2: "lib_copies a w1 w2" and l3: "lib_copies a w2 w'"
    using gs ws by simp_all
  have l12: "lib_copies a w w2" using l1 l2 by (rule lib_copies_trans)
  have l: "lib_copies a w w'" using l12 l3 by (rule lib_copies_trans)
  have ne: "new_events w w' = Exec [''otool'', ''-L'', item] # new_events w1 w2 @ new_events w2 w'"
    using new_events_trans[OF lib_copiesD(1)[OF l12] lib_copiesD(1)[OF l3]]
      new_events_trans[OF lib_copiesD(1)[OF l1] lib_copiesD(1)[OF l2]] n1 by simp
  let ?cg = "copies (new_events w1 w2)" and ?c3 = "copies (new_events w2 w')"
  have cs: "copies (new_events w w') = ?cg @ ?c3"
    by (simp add: ne copies_def)
  have pr: "processed (new_events w w') = item # processed (new_events w2 w')"
    using gs by (simp add: ne processed_def)
  have rep: "reported w' item = deps"
    using reported_kept[OF l ex] deps by simp
  have p1: "set (paths w1) = set (paths w)"
    using lib_copiesD(5)[OF l1] n1 by (auto simp: in_paths copies_def)
  have cg: "?cg = walk_picks a (paths w) deps"
    using gather_picks[OF g] walk_picks_cong[OF p1] by simp
  have "\<And>p. p \<in> set (paths w2) \<longleftrightarrow> p \<in> set (map snd ?cg @ paths w)"
  proof -
    fix p
    have "p \<in> set (paths w1) \<longleftrightarrow> p \<in> set (paths w)" using p1 by simp
    then have e1: "exists w1 p \<longleftrightarrow> exists w p" by (simp only: in_paths)
    have "p \<in> set (paths w2) \<longleftrightarrow> exists w p \<or> p \<in> snd ` set ?cg"
      using lib_copiesD(5)[OF l2, of p] e1 by (simp only: in_paths)
    also have "\<dots> \<longleftrightarrow> p \<in> set (map snd ?cg @ paths w)"
      using in_paths[of p w] by auto
    finally show "p \<in> set (paths w2) \<longleftrightarrow> p \<in> set (map snd ?cg @ paths w)" .
  qed
  then have "set (paths w2) = set (map snd ?cg @ paths w)" by blast
  then have c3: "?c3 = walk_picks a (map snd ?cg @ paths w)
      (concat (map (reported w') (processed (new_events w2 w'))))"
    using ih walk_picks_cong by simp
  show ?case
    unfolding cs pr using cg c3 rep by (simp add: walk_picks_append)
qed

lemma lookup_put_all:
  "lookup (put_all es w) q = (case map_of (rev es) q of Some n \<Rightarrow> Some n | None \<Rightarrow> lookup w q)"
  by (induction es w rule: put_all.induct) (auto simp: map_add_def split: option.splits)

lemma listing_mem: "(p, v) \<in> set (listing w) \<Longrightarrow> lookup w p = Some v"
  by (auto simp: listing_def split: option.splits)

lemma mem_listing: "lookup w p = Some v \<Longrightarrow> (p, v) \<in> set (listing w)"
proof -
  assume "lookup w p = Some v"
  then have "map_of (listing w) p = Some v" by (simp add: lookup_listing)
  then show ?thesis by (rule map_of_SomeD)
qed

lemma copytree_inside:
  assumes "copytree src dst w = Inr w'"
  shows "lookup w' (dst @ ''/'' @ rel)
     = (case lookup w (src @ ''/'' @ rel) of
          Some n \<Rightarrow> Some n | None \<Rightarrow> lookup w (dst @ ''/'' @ rel))"
proof -
  let ?es = "map (\<lambda>(p, n). (dst @ drop (length src) p, n))
      (filter (\<lambda>(p, n). inside src p) (listing w))"
  let ?q = "dst @ ''/'' @ rel"
  from assms have w': "w' = record_event (Copytree src dst) (put_all ?es (put dst Dir w))"
    by (auto simp: copytree_def split: option.splits node.splits if_splits)
  have only: "\<And>v. (?q, v) \<in> set ?es \<Longrightarrow> lookup w (src @ ''/'' @ rel) = Some v"
  proof -
    fix v assume "(?q, v) \<in> set ?es"
    then obtain p where p: "(p, v) \<in> set (listing w)" "inside src p"
      "dst @ drop (length src) p = ?q" by auto
    from p(2) obtain t where t: "p = src @ ''/'' @ t"
      by (auto simp: inside_def startswith_def prefix_def)
    with p(3) have "t = rel" by simp
    with t listing_mem[OF p(1)] show "lookup w (src @ ''/'' @ rel) = Some v" by simp
  qed
  have some: "\<And>v. lookup w (src @ ''/'' @ rel) = Some v \<Longrightarrow> (?q, v) \<in> set ?es"
  proof -
    fix v assume "lookup w (src @ ''/'' @ rel) = Some v"
    then have "(src @ ''/'' @ rel, v) \<in> set (listing w)" by (rule mem_listing)
    moreover have "inside src (src @ ''/'' @ rel)" by (simp add: inside_def startswith_def)
    ultimately have "(dst @ drop (length src) (src @ ''/'' @ rel), v) \<in> set ?es"
      by force
    then show "(?q, v) \<in> set ?es" by simp
  qed
  have m: "map_of (rev ?es) ?q = lookup w (src @ ''/'' @ rel)"
  proof (cases "lookup w (src @ ''/'' @ rel)")
    case None
    have "map_of (rev ?es) ?q = None"
    proof (rule ccontr)
      assume "map_of (rev ?es) ?q \<noteq> None"
      then obtain v where "map_of (rev ?es) ?q = Some v" by auto
      then have "(?q, v) \<in> set ?es" by (auto dest: map_of_SomeD)
      from only[OF this] None show False by simp
    qed
    with None show ?thesis by simp
  next
    case (Some v)
    then have "(?q, v) \<in> set (rev ?es)" using some by simp
    then have "?q \<in> fst ` set (rev ?es)" by (rule image_eqI[rotated]) simp
    then have "map_of (rev ?es) ?q \<noteq> None" by (simp only: map_of_eq_None_iff) simp
    then obtain v' where v': "map_of (rev ?es) ?q = Some v'" by blast
    then have "(?q, v') \<in> set ?es" by (auto dest: map_of_SomeD)
    from only[OF this] Some v' show ?thesis by simp
  qed
  have p: "lookup (put dst Dir w) ?q = lookup w ?q" by simp
  show ?thesis
    unfolding w' by (simp only: lookup_record_event lookup_put_all m p)
qed

lemma inside_frameworks:
  assumes "n \<in> set QT_FRAMEWORKS" "p = fw_dst a n \<or> inside (fw_dst a n) p"
  shows "inside (frameworks_dir a) p"
  using assms(2) unfolding fw_dst_eq[OF assms(1)]
  by (auto simp: inside_def startswith_def prefix_def)

lemma apart_outside:
  assumes "apart d e" "p = e \<or> inside e p"
  shows "\<not> inside d p"
proof
  assume i: "inside d p"
  from assms(2) show False
  proof
    assume "p = e"
    with i have "prefix (d @ ''/'') e" by (simp add: inside_def startswith_def)
    then have "prefix (d @ ''/'') (e @ ''/'')" by (rule prefix_prefix)
    with assms(1) show False by (simp add: apart_def startswith_def)
  next
    assume "inside e p"
    with i have "prefix (d @ ''/'') p" "prefix (e @ ''/'') p"
      by (simp_all add: inside_def startswith_def)
    then have "prefix (d @ ''/'') (e @ ''/'') \<or> prefix (e @ ''/'') (d @ ''/'')"
      by (rule prefix_same_cases)
    with assms(1) show False by (simp add: apart_def startswith_def)
  qed
qed

lemma copy_qt_framework_content:
  assumes c: "copy_qt_framework a name w = Inr w'"
    and n: "name \<in> set QT_FRAMEWORKS"
    and ap: "apart (frameworks_dir a) (fw_src a name)"
    and td: "exists w (fw_dst a name) \<or> (\<forall>p\<in>set (paths w). \<not> inside (fw_dst a name) p)"
  shows "lookup w' (fw_dst a name @ ''/'' @ rel) = lookup w (fw_src a name @ ''/'' @ rel)"
    and "p \<noteq> fw_dst a name \<Longrightarrow> \<not> inside (fw_dst a name) p \<Longrightarrow> lookup w' p = lookup w p"
proof -
  let ?src = "fw_src a name" and ?dst = "fw_dst a name"
  from c obtain w1 where
    r: "(if exists w ?dst then rmtree ?dst w else Inr w) = Inr w1"
    and t: "copytree ?src ?dst w1 = Inr w'"
    by (auto simp: copy_qt_framework_def Let_def and_then_Inr split: if_splits)
  have A: "\<And>q. inside ?dst q \<Longrightarrow> lookup w1 q = None"
  proof -
    fix q assume q: "inside ?dst q"
    show "lookup w1 q = None"
    proof (cases "exists w ?dst")
      case True
      with r have "rmtree ?dst w = Inr w1" by simp
      from rmtree_Inr[OF this] q show ?thesis by simp
    next
      case False
      with r td q have "w1 = w" "q \<notin> set (paths w)" by auto
      then show ?thesis by (simp add: in_paths exists_def)
    qed
  qed
  have B: "\<And>q. q \<noteq> ?dst \<Longrightarrow> \<not> inside ?dst q \<Longrightarrow> lookup w1 q = lookup w q"
  proof -
    fix q assume q: "q \<noteq> ?dst" "\<not> inside ?dst q"
    show "lookup w1 q = lookup w q"
    proof (cases "exists w ?dst")
      case True
      with r have "rmtree ?dst w = Inr w1" by simp
      from rmtree_Inr[OF this] q show ?thesis by simp
    next
      case False
      with r show ?thesis by simp
    qed
  qed
  have i: "inside ?dst (?dst @ ''/'' @ rel)" by (simp add: inside_def startswith_def)
  have o: "inside ?src (?src @ ''/'' @ rel)" by (simp add: inside_def startswith_def)
  have "\<not> inside (frameworks_dir a) (?src @ ''/'' @ rel)"
    using apart_outside[OF ap] o by blast
  then have "?src @ ''/'' @ rel \<noteq> ?dst \<and> \<not> inside ?dst (?src @ ''/'' @ rel)"
    using inside_frameworks[OF n, of "?src @ ''/'' @ rel" a] by blast
  then have s: "lookup w1 (?src @ ''/'' @ rel) = lookup w (?src @ ''/'' @ rel)"
    using B by blast
  show "lookup w' (?dst @ ''/'' @ rel) = lookup w (?src @ ''/'' @ rel)"
    unfolding copytree_inside[OF t] A[OF i] s by (simp split: option.splits)
  show "p \<noteq> ?dst \<Longrightarrow> \<not> inside ?dst p \<Longrightarrow> lookup w' p = lookup w p"
    using copytree_other[OF t, of p] B[of p] by simp
qed

lemma copy_qt_frameworks_content:
  "for_each (copy_qt_framework a) names w = Inr w' \<Longrightarrow>
   set names \<subseteq> set QT_FRAMEWORKS \<Longrightarrow> distinct names \<Longrightarrow>
   \<forall>n\<in>set names. apart (frameworks_dir a) (fw_src a n) \<Longrightarrow>
   \<forall>n\<in>set names. exists w (fw_dst a n) \<or> (\<forall>p\<in>set (paths w). \<not> inside (fw_dst a n) p) \<Longrightarrow>
   (\<forall>n\<in>set names. \<forall>rel.
       lookup w' (fw_dst a n @ ''/'' @ rel) = lookup w (fw_src a n @ ''/'' @ rel))
   \<and> (\<forall>p. (\<forall>n\<in>set names. p \<noteq> fw_dst a n \<and> \<not> inside (fw_dst a n) p)
         \<longrightarrow> lookup w' p = lookup w p)"
proof (induction names arbitrary: w)
  case Nil
  then show ?case by simp
next
  case (Cons name names)
  from Cons.prems(1) obtain w1 where 1: "copy_qt_framework a name w = Inr w1"
    and 2: "for_each (copy_qt_framework a) names w1 = Inr w'"
    by (auto simp: and_then_Inr)
  from Cons.prems(2,3) have nm: "name \<in> set QT_FRAMEWORKS" and sub: "set names \<subseteq> set QT_FRAMEWORKS"
    and dn: "distinct names" and nn: "name \<notin> set names" by auto
  from Cons.prems(4) have ap: "apart (frameworks_dir a) (fw_src a name)"
    and aps: "\<forall>n\<in>set names. apart (frameworks_dir a) (fw_src a n)" by auto
  from Cons.prems(5) have
    td: "exists w (fw_dst a name) \<or> (\<forall>p\<in>set (paths w). \<not> inside (fw_dst a name) p)" by simp
  note step = copy_qt_framework_content[OF 1 nm ap td]
  have other: "\<And>n p. n \<in> set names \<Longrightarrow> p = fw_dst a n \<or> inside (fw_dst a n) p \<Longrightarrow>
      lookup w1 p = lookup w p"
  proof -
    fix n p assume n: "n \<in> set names" and p: "p = fw_dst a n \<or> inside (fw_dst a n) p"
    from n sub nn have "n \<in> set QT_FRAMEWORKS" "n \<noteq> name" by auto
    from fw_dst_tree_apart[OF this(1) nm this(2) p] show "lookup w1 p = lookup w p"
      using step(2)[of p] by simp
  qed
  have tds: "\<forall>n\<in>set names. exists w1 (fw_dst a n) \<or> (\<forall>p\<in>set (paths w1). \<not> inside (fw_dst a n) p)"
  proof
    fix n assume n: "n \<in> set names"
    show "exists w1 (fw_dst a n) \<or> (\<forall>p\<in>set (paths w1). \<not> inside (fw_dst a n) p)"
    proof (cases "exists w (fw_dst a n)")
      case True
      then show ?thesis using other[OF n, of "fw_dst a n"] by (simp add: exists_def)
    next
      case False
      with Cons.prems(5) n have none: "\<forall>p\<in>set (paths w). \<not> inside (fw_dst a n) p" by auto
      have "\<forall>p\<in>set (paths w1). \<not> inside (fw_dst a n) p"
      proof (intro ballI notI)
        fix p assume p: "p \<in> set (paths w1)" "inside (fw_dst a n) p"
        then have "exists w p" using other[OF n, of p] by (simp add: in_paths exists_def)
        with none p(2) show False by (simp add: in_paths)
      qed
      then show ?thesis ..
    qed
  qed
  note ih = Cons.IH[OF 2 sub dn aps tds]
  have c1: "\<forall>n\<in>set (name # names). \<forall>rel.
       lookup w' (fw_dst a n @ ''/'' @ rel) = lookup w (fw_src a n @ ''/'' @ rel)"
  proof (intro ballI allI)
    fix n rel assume n: "n \<in> set (name # names)"
    show "lookup w' (fw_dst a n @ ''/'' @ rel) = lookup w (fw_src a n @ ''/'' @ rel)"
    proof (cases "n = name")
      case True
      have i: "inside (fw_dst a name) (fw_dst a name @ ''/'' @ rel)"
        by (simp add: inside_def startswith_def)
      have "\<forall>m\<in>set names. fw_dst a name @ ''/'' @ rel \<noteq> fw_dst a m
          \<and> \<not> inside (fw_dst a m) (fw_dst a name @ ''/'' @ rel)"
      proof
        fix m assume "m \<in> set names"
        with sub nn have "m \<in> set QT_FRAMEWORKS" "name \<noteq> m" by auto
        from fw_dst_tree_apart[OF nm this(1) this(2), of "fw_dst a name @ ''/'' @ rel" a] i
        show "fw_dst a name @ ''/'' @ rel \<noteq> fw_dst a m
          \<and> \<not> inside (fw_dst a m) (fw_dst a name @ ''/'' @ rel)" by simp
      qed
      with ih have "lookup w' (fw_dst a name @ ''/'' @ rel) = lookup w1 (fw_dst a name @ ''/'' @ rel)"
        by blast
      with step(1)[of rel] True show ?thesis by simp
    next
      case False
      with n have n': "n \<in> set names" by simp
      with ih have e: "lookup w' (fw_dst a n @ ''/'' @ rel) = lookup w1 (fw_src a n @ ''/'' @ rel)"
        by blast
      have o: "inside (fw_src a n) (fw_src a n @ ''/'' @ rel)" by (simp add: inside_def startswith_def)
      from aps n' have "apart (frameworks_dir a) (fw_src a n)" by simp
      from apart_outside[OF this, of "fw_src a n @ ''/'' @ rel"] o
      have "\<not> inside (frameworks_dir a) (fw_src a n @ ''/'' @ rel)" by simp
      then have "fw_src a n @ ''/'' @ rel \<noteq> fw_dst a name
          \<and> \<not> inside (fw_dst a name) (fw_src a n @ ''/'' @ rel)"
        using inside_frameworks[OF nm, of "fw_src a n @ ''/'' @ rel" a] by blast
      with step(2)[of "fw_src a n @ ''/'' @ rel"] e show ?thesis by simp
    qed
  qed
  have c2: "\<forall>p. (\<forall>n\<in>set (name # names). p \<noteq> fw_dst a n \<and> \<not> inside (fw_dst a n) p)
         \<longrightarrow> lookup w' p = lookup w p"
    using ih step(2) by simp
  from c1 c2 show ?case ..
qed

lemma explicit_picks_cong:
  "set t1 = set t2 \<Longrightarrow> explicit_picks a t1 srcs = explicit_picks a t2 srcs"
proof (induction srcs arbitrary: t1 t2)
  case Nil
  then show ?case by simp
next
  case (Cons d ds)
  have "explicit_picks a (lib_dst a d # t1) ds = explicit_picks a (lib_dst a d # t2) ds"
    by (rule Cons.IH) (simp add: Cons.prems)
  moreover have "explicit_picks a t1 ds = explicit_picks a t2 ds"
    by (rule Cons.IH) (rule Cons.prems)
  ultimately show ?case using Cons.prems by simp
qed

lemma copy_explicit_picks:
  "for_each (copy_explicit_lib a) srcs w = Inr w' \<Longrightarrow>
   copies (new_events w w') = explicit_picks a (paths w) srcs"
proof (induction srcs arbitrary: w)
  case Nil
  then show ?case by simp
next
  case (Cons src srcs)
  from Cons.prems obtain w1 where 1: "copy_explicit_lib a src w = Inr w1"
    and 2: "for_each (copy_explicit_lib a) srcs w1 = Inr w'"
    by (auto simp: and_then_Inr)
  have g2: "grows w1 w'" using for_each_grows[OF 2] copy_explicit_lib_grows by blast
  let ?dst = "lib_dst a src"
  show ?case
  proof (cases "exists w src \<and> \<not> exists w ?dst")
    case True
    with 1 have c: "copy2 src ?dst w = Inr w1"
      by (simp add: copy_explicit_lib_def Let_def)
    from True lib_copies_copy2[OF c] have
      l1: "lib_copies a w w1" and n1: "new_events w w1 = [Copy2 src ?dst]" by simp_all
    have ne: "new_events w w' = Copy2 src ?dst # new_events w1 w'"
      using new_events_trans[OF lib_copiesD(1)[OF l1] g2] n1 by simp
    have "set (paths w1) = set (?dst # paths w)"
      using lib_copiesD(5)[OF l1] n1 by (auto simp: in_paths copies_def)
    then have "explicit_picks a (paths w1) srcs = explicit_picks a (?dst # paths w) srcs"
      by (rule explicit_picks_cong)
    with Cons.IH[OF 2] True show ?thesis
      by (simp add: ne copies_def in_paths)
  next
    case False
    with 1 have "w1 = w" by (auto simp: copy_explicit_lib_def Let_def split: if_splits)
    with Cons.IH[OF 2] False show ?thesis by (auto simp: in_paths)
  qed
qed





lemma paths_record_event [simp]: "paths (record_event e w) = paths w"
  by (simp add: paths_def)

lemma exists_record_event [simp]: "exists (record_event e w) p = exists w p"
  by (simp add: exists_def)

lemma macho_at_record_event [simp]: "macho_at (record_event e w) p = macho_at w p"
  by (simp add: macho_at_def)






lemma id_of_record_event [simp]: "id_of (record_event e w) p = id_of w p"
  by (simp add: id_of_def)






lemma startswith_at [simp]: "startswith (''@'' @ s) ''@''"
  by (simp add: startswith_def)







lemma set_paths: "set (paths w) = {p. exists w p}"
  by (auto simp: paths_def exists_def lookup_def map_of_eq_None_iff)

lemma set_glob_dylib:
  "p \<in> set (glob_dylib w d) \<longleftrightarrow>
     exists w p \<and> inside d p \<and> CHR ''/'' \<notin> set (drop (length d + 1) p) \<and> endswith p ''.dylib''"
  by (auto simp: glob_dylib_def set_paths)



lemma glob_dylib_name:
  assumes "p \<in> set (glob_dylib w (lib_dir a))"
  shows "is_part (path_name p) \<and> p = joinpath (lib_dir a) (path_name p)"
proof -
  from assms obtain t where t: "p = lib_dir a @ ''/'' @ t" "CHR ''/'' \<notin> set t"
    and e: "endswith p ''.dylib''"
    by (auto simp: set_glob_dylib inside_def startswith_def prefix_def)
  have eq: "takeWhile (\<lambda>c. c \<noteq> CHR ''/'') (rev t) = rev t"
    using t(2) by (intro takeWhile_eq_all_conv[THEN iffD2]) auto
  have tt: "takeWhile (\<lambda>c. c \<noteq> CHR ''/'') (rev (lib_dir a @ ''/'' @ t))
      = takeWhile (\<lambda>c. c \<noteq> CHR ''/'') (rev t)"
    by (simp add: takeWhile_tail)
  have b: "basename p = t"
    unfolding basename_def t(1) by (simp only: tt eq rev_rev_ident)
  from dylib_is_part[OF e] path_name_dylib[OF e] b have pt: "is_part t" "path_name p = t"
    by simp_all
  from joinpath_part[OF lib_dir_normal pt(1), of a] t(1) pt show ?thesis by simp
qed








lemma rglob_dylib_paths: "paths w' = paths w \<Longrightarrow> rglob_dylib w' d = rglob_dylib w d"
  by (simp add: rglob_dylib_def)

lemma ex_run_bundle: "bundle_libs rev ex_args ex_run_world = Inr ex_run_done"
  by code_simp

section \<open>Properties of otool\_deps\<close>

text \<open>
  C7. For every output text, \<open>otool_deps\<close> skips the first line and returns, for each
  remaining line in order, the part of the stripped line before its first space
  character (the whole stripped line when it has none): one entry per line after the
  header, none of them with a space in it.
\<close>

theorem otool_deps_of_lines:
  "otool_deps_of out =
     map (\<lambda>line. takeWhile (\<lambda>c. c \<noteq> CHR '' '') (strip line)) (tl (splitlines out))
   \<and> length (otool_deps_of out) = length (splitlines out) - 1
   \<and> list_all (\<lambda>dep. CHR '' '' \<notin> set dep) (otool_deps_of out)"
proof -
  have m: "otool_deps_of out = map dep_of_line (tl (splitlines out))"
    by (simp add: otool_deps_of_def deps_loop_map drop_Suc)
  have "\<And>l. CHR '' '' \<notin> set (dep_of_line l)"
    unfolding dep_of_line_takeWhile by (auto dest: set_takeWhileD)
  with m show ?thesis
    by (simp add: dep_of_line_takeWhile list_all_iff)
qed

section \<open>Properties of add\_rpath\_if\_missing\<close>

text \<open>
  C10. \<open>add_rpath_if_missing\<close> is idempotent. When the binary has the rpath among its
  load commands, the call only runs \<open>otool -l\<close>: no \<open>install_name_tool\<close> is run and the
  world is otherwise unchanged. And after any call that returns, a second call with the
  same arguments returns too, runs only \<open>otool -l\<close> and leaves every file as the first
  call left it.
\<close>

theorem add_rpath_if_missing_idempotent:
  "(lookup w b = Some (Bin m) \<and> r \<in> set (rpaths m) \<longrightarrow>
      add_rpath_if_missing b r w = Inr (record_event (Exec [''otool'', ''-l'', b]) w))
   \<and> (add_rpath_if_missing b r w = Inr w1 \<longrightarrow>
      add_rpath_if_missing b r w1 = Inr (record_event (Exec [''otool'', ''-l'', b]) w1)
      \<and> files (record_event (Exec [''otool'', ''-l'', b]) w1) = files w1)"
proof (intro conjI impI)
  assume "lookup w b = Some (Bin m) \<and> r \<in> set (rpaths m)"
  then show "add_rpath_if_missing b r w = Inr (record_event (Exec [''otool'', ''-l'', b]) w)"
    using rpath_in_text[of r m b] by (simp add: add_rpath_if_missing_def check_output_def)
next
  assume h: "add_rpath_if_missing b r w = Inr w1"
  then obtain m where m: "lookup w b = Some (Bin m)"
    by (auto simp: add_rpath_if_missing_def check_output_def split: option.splits node.splits)
  let ?w' = "record_event (Exec [''otool'', ''-l'', b]) w"
  have "\<exists>m1. lookup w1 b = Some (Bin m1) \<and> has_rpath_text (otool_l_text b m1) r"
  proof (cases "has_rpath_text (otool_l_text b m) r")
    case True
    with h m have "w1 = ?w'" by (simp add: add_rpath_if_missing_def check_output_def)
    with m True show ?thesis by simp
  next
    case False
    with h m have "install_name_tool (AddRpath r) b ?w' = Inr w1"
      by (simp add: add_rpath_if_missing_def check_output_def)
    then obtain m' where "tool_effect (AddRpath r) m = Some m'" "lookup w1 b = Some (Bin m')"
      using m by (auto simp: install_name_tool_Inr)
    moreover then have "r \<in> set (rpaths m')" by (auto split: if_splits)
    ultimately show ?thesis using rpath_in_text by blast
  qed
  then show "add_rpath_if_missing b r w1 = Inr (record_event (Exec [''otool'', ''-l'', b]) w1)"
    by (auto simp: add_rpath_if_missing_def check_output_def)
next
  show "files (record_event (Exec [''otool'', ''-l'', b]) w1) = files w1" by simp
qed

theorem add_rpath_if_missing_idempotent_witness:
  "add_rpath_if_missing ''/g'' ''@r'' ex_bin_world = Inr ex_bin_world1
   \<and> lookup ex_bin_world1 ''/g'' = Some (Bin (ex_plain\<lparr>rpaths := [''@r'']\<rparr>))
   \<and> ''@r'' \<in> set (rpaths (ex_plain\<lparr>rpaths := [''@r'']\<rparr>))
   \<and> add_rpath_if_missing ''/g'' ''@r'' ex_bin_world1
       = Inr (record_event (Exec [''otool'', ''-l'', ''/g'']) ex_bin_world1)"
proof -
  have 1: "add_rpath_if_missing ''/g'' ''@r'' ex_bin_world = Inr ex_bin_world1"
    by code_simp
  have 2: "lookup ex_bin_world1 ''/g'' = Some (Bin (ex_plain\<lparr>rpaths := [''@r'']\<rparr>))"
    by code_simp
  have 3: "''@r'' \<in> set (rpaths (ex_plain\<lparr>rpaths := [''@r'']\<rparr>))" by simp
  from add_rpath_if_missing_idempotent[of ex_bin_world "''/g''" _ "''@r''" ex_bin_world1] 1
    add_rpath_if_missing_idempotent[of ex_bin_world1 "''/g''" "ex_plain\<lparr>rpaths := [''@r'']\<rparr>" "''@r''"] 2 3
  show ?thesis by simp
qed

section \<open>The first test of bundle\<close>

text \<open>
  C8. If \<open>bundle_dir\<close> is not an existing directory or \<open>plugin_bin\<close> does not exist,
  \<open>bundle\<close> prints one line to stderr and exits with status 1; the files are unchanged
  and nothing was recorded in the trace: no directory made, no file copied, no tool run.
  This holds whatever the order in which the run lists its sets.
\<close>

theorem bundle_missing_input:
  "\<not> is_dir w (bundle_dir a) \<or> \<not> exists w (plugin_bin a) \<Longrightarrow>
   bundle_libs order a w = Inl (SystemExit 1, print_stderr ''Missing bundle_dir or plugin_bin'' w)
   \<and> files (print_stderr ''Missing bundle_dir or plugin_bin'' w) = files w
   \<and> trace (print_stderr ''Missing bundle_dir or plugin_bin'' w) = trace w
   \<and> stderr (print_stderr ''Missing bundle_dir or plugin_bin'' w)
       = stderr w @ [''Missing bundle_dir or plugin_bin'']"
  by (auto simp: bundle_libs_def print_stderr_def)

theorem bundle_missing_input_witness:
  "\<not> exists ex_no_plugin (plugin_bin ex_args)
   \<and> bundle_libs rev ex_args ex_no_plugin
       = Inl (SystemExit 1,
           \<lparr>files = [(''/b'', Dir)], trace = [],
            stderr = [''Missing bundle_dir or plugin_bin'']\<rparr>)"
proof -
  have h: "\<not> exists ex_no_plugin (plugin_bin ex_args)"
    by (simp add: exists_def lookup_def ex_no_plugin_def ex_args_def)
  then have "\<not> is_dir ex_no_plugin (bundle_dir ex_args) \<or> \<not> exists ex_no_plugin (plugin_bin ex_args)"
    by simp
  from bundle_missing_input[OF this, of rev] h show ?thesis
    by (simp add: print_stderr_def ex_no_plugin_def)
qed

section \<open>The Qt frameworks\<close>

text \<open>
  C5. The list of Qt frameworks is the fixed list of six names. The loop of \<open>bundle\<close> over
  that list copies, for each name and in order, \<open><qt_prefix>/lib/<name>.framework\<close> to
  \<open>Frameworks/<name>.framework\<close>, and these are the only trees it copies; each
  destination is a directory afterwards. When the source frameworks are apart from
  \<open>Frameworks\<close> and the file system is tidy, every path below a destination holds after
  the loop what the same path below its source held before it, and nothing where the
  source has nothing: what an earlier copy had left there is gone. \<open>bundle\<close> runs this
  loop after making its three directories. One pass of the loop removes the destination
  first when it exists, then copies. And when the loop reaches a name whose source does
  not exist, \<open>bundle\<close> prints the missing path and exits with status 1.
\<close>

theorem qt_frameworks_copied:
  "QT_FRAMEWORKS = [''QtCore'', ''QtGui'', ''QtWidgets'', ''QtNetwork'', ''QtDBus'', ''QtPrintSupport'']
   \<and> (for_each (copy_qt_framework a) QT_FRAMEWORKS w0 = Inr w1 \<longrightarrow>
        filter is_copytree (new_events w0 w1)
          = map (\<lambda>name. Copytree (fw_src a name) (fw_dst a name)) QT_FRAMEWORKS
        \<and> list_all (\<lambda>name. is_dir w1 (fw_dst a name)) QT_FRAMEWORKS
        \<and> ((\<forall>name\<in>set QT_FRAMEWORKS. apart (frameworks_dir a) (fw_src a name)) \<and> tidy a w0 \<longrightarrow>
             (\<forall>name\<in>set QT_FRAMEWORKS. \<forall>rel.
                lookup w1 (fw_dst a name @ ''/'' @ rel) = lookup w0 (fw_src a name @ ''/'' @ rel))))
   \<and> (bundle_libs order a w = Inr w' \<longrightarrow>
        (\<exists>w0 w1. for_each mkdir [frameworks_dir a, plugins_dir a, lib_dir a] w = Inr w0
           \<and> for_each (copy_qt_framework a) QT_FRAMEWORKS w0 = Inr w1
           \<and> grows w w0 \<and> grows w0 w1 \<and> grows w1 w'))
   \<and> (copy_qt_framework a name u = Inr u' \<longrightarrow>
        is_dir u (fw_src a name)
        \<and> new_events u u' = (if exists u (fw_dst a name) then [Rmtree (fw_dst a name)] else [])
                             @ [Copytree (fw_src a name) (fw_dst a name)])
   \<and> (is_dir w (bundle_dir a) \<and> exists w (plugin_bin a)
        \<and> for_each mkdir [frameworks_dir a, plugins_dir a, lib_dir a] w = Inr v0
        \<and> QT_FRAMEWORKS = pre @ missing_name # post
        \<and> for_each (copy_qt_framework a) pre v0 = Inr v1
        \<and> \<not> exists v1 (fw_src a missing_name) \<longrightarrow>
        bundle_libs order a w
          = Inl (SystemExit 1,
                 print_stderr (''Missing Qt framework: '' @ fw_src a missing_name) v1))"
proof (intro conjI impI)
  show "QT_FRAMEWORKS = [''QtCore'', ''QtGui'', ''QtWidgets'', ''QtNetwork'', ''QtDBus'', ''QtPrintSupport'']"
    by (simp add: QT_FRAMEWORKS_def)
next
  assume f: "for_each (copy_qt_framework a) QT_FRAMEWORKS w0 = Inr w1"
  from copy_qt_frameworks_trace[OF f]
  show "filter is_copytree (new_events w0 w1)
          = map (\<lambda>name. Copytree (fw_src a name) (fw_dst a name)) QT_FRAMEWORKS" by simp
  from copy_qt_frameworks_dirs[OF subset_refl f]
  show "list_all (\<lambda>name. is_dir w1 (fw_dst a name)) QT_FRAMEWORKS"
    by (simp add: list_all_iff)
next
  assume f: "for_each (copy_qt_framework a) QT_FRAMEWORKS w0 = Inr w1"
    and h: "(\<forall>name\<in>set QT_FRAMEWORKS. apart (frameworks_dir a) (fw_src a name)) \<and> tidy a w0"
  have d: "distinct QT_FRAMEWORKS" by (simp add: QT_FRAMEWORKS_def)
  from h have ap: "\<forall>n\<in>set QT_FRAMEWORKS. apart (frameworks_dir a) (fw_src a n)"
    and td: "\<forall>n\<in>set QT_FRAMEWORKS.
        exists w0 (fw_dst a n) \<or> (\<forall>p\<in>set (paths w0). \<not> inside (fw_dst a n) p)"
    by (simp_all add: tidy_def)
  from copy_qt_frameworks_content[OF f subset_refl d ap td]
  show "\<forall>name\<in>set QT_FRAMEWORKS. \<forall>rel.
          lookup w1 (fw_dst a name @ ''/'' @ rel) = lookup w0 (fw_src a name @ ''/'' @ rel)"
    by blast
next
  assume "bundle_libs order a w = Inr w'"
  then obtain w0 w1 w2 w3 w4 where
    m: "for_each mkdir [frameworks_dir a, plugins_dir a, lib_dir a] w = Inr w0"
    and f: "for_each (copy_qt_framework a) QT_FRAMEWORKS w0 = Inr w1"
    and p: "for_each (copy_qt_plugin_dir a) QT_PLUGIN_SUBDIRS w1 = Inr w2"
    and c: "write_qt_conf a w2 = Inr w3"
    and l: "copy_libs a (order (initial_binaries a w3)) w3 = Inr w4"
    and r: "rewrite order a (initial_binaries a w3) w4 = Inr w'"
    by (auto simp: bundle_libs_Inr copy_qt_Inr)
  have "grows w1 w2" using for_each_grows[OF p] copy_qt_plugin_dir_grows by blast
  with write_qt_conf_grows[OF c] copy_libs_grows[OF l] rewrite_grows[OF r]
  have g: "grows w1 w'" by (blast intro: grows_trans)
  have g0: "grows w w0" using for_each_grows[OF m] mkdir_grows by blast
  from copy_qt_frameworks_trace[OF f] m f g g0
  show "\<exists>w0 w1. for_each mkdir [frameworks_dir a, plugins_dir a, lib_dir a] w = Inr w0
           \<and> for_each (copy_qt_framework a) QT_FRAMEWORKS w0 = Inr w1
           \<and> grows w w0 \<and> grows w0 w1 \<and> grows w1 w'"
    by blast
next
  assume c: "copy_qt_framework a name u = Inr u'"
  from copy_qt_framework_Inr[OF c] show "is_dir u (fw_src a name)" by simp
  from copy_qt_framework_Inr[OF c]
  show "new_events u u' = (if exists u (fw_dst a name) then [Rmtree (fw_dst a name)] else [])
                             @ [Copytree (fw_src a name) (fw_dst a name)]"
    by (simp add: new_events_def)
next
  assume h: "is_dir w (bundle_dir a) \<and> exists w (plugin_bin a)
        \<and> for_each mkdir [frameworks_dir a, plugins_dir a, lib_dir a] w = Inr v0
        \<and> QT_FRAMEWORKS = pre @ missing_name # post
        \<and> for_each (copy_qt_framework a) pre v0 = Inr v1
        \<and> \<not> exists v1 (fw_src a missing_name)"
  then have "for_each (copy_qt_framework a) QT_FRAMEWORKS v0
     = Inl (SystemExit 1, print_stderr (''Missing Qt framework: '' @ fw_src a missing_name) v1)"
    using copy_qt_frameworks_missing[of a pre v0 v1 missing_name post] by simp
  with h show "bundle_libs order a w
          = Inl (SystemExit 1,
                 print_stderr (''Missing Qt framework: '' @ fw_src a missing_name) v1)"
    by (simp add: bundle_libs_def copy_qt_def and_then_def)
qed

theorem qt_frameworks_copied_witness:
  "for_each (copy_qt_framework ex_args) QT_FRAMEWORKS ex_fw_dirs = Inr ex_fw_copied
   \<and> list_all (\<lambda>name. apart (frameworks_dir ex_args) (fw_src ex_args name)) QT_FRAMEWORKS
   \<and> tidy ex_args ex_fw_dirs
   \<and> filter is_copytree (new_events ex_fw_dirs ex_fw_copied)
        = map (\<lambda>name. Copytree (fw_src ex_args name) (fw_dst ex_args name)) QT_FRAMEWORKS
   \<and> lookup ex_fw_dirs (fw_dst ex_args ''QtCore'' @ ''/'' @ ''stale'') = Some (Other ''old'')
   \<and> lookup ex_fw_copied (fw_dst ex_args ''QtCore'' @ ''/'' @ ''stale'') = None
   \<and> lookup ex_fw_copied (fw_dst ex_args ''QtCore'' @ ''/'' @ ''Versions/5/QtCore'')
        = Some (Bin \<lparr>install_id = Some ''/o/qt/lib/QtCore.framework/Versions/5/QtCore'',
                       load_deps = [''/usr/lib/libSystem.B.dylib''], rpaths = []\<rparr>)
   \<and> bundle_libs rev ex_args ex_run_world = Inr ex_run_done
   \<and> (\<exists>w0 w1. for_each mkdir [frameworks_dir ex_args, plugins_dir ex_args, lib_dir ex_args]
                  ex_run_world = Inr w0
           \<and> for_each (copy_qt_framework ex_args) QT_FRAMEWORKS w0 = Inr w1
           \<and> grows ex_run_world w0 \<and> grows w0 w1 \<and> grows w1 ex_run_done)
   \<and> exists ex_qt_missing (fw_dst ex_args ''QtCore'')
   \<and> new_events ex_qt_missing (projr (copy_qt_framework ex_args ''QtCore'' ex_qt_missing))
       = [Rmtree (fw_dst ex_args ''QtCore''),
          Copytree (fw_src ex_args ''QtCore'') (fw_dst ex_args ''QtCore'')]
   \<and> \<not> exists ex_qt_missing_two (fw_src ex_args ''QtWidgets'')
   \<and> bundle_libs rev ex_args ex_qt_missing
       = Inl (SystemExit 1,
              print_stderr (''Missing Qt framework: '' @ fw_src ex_args ''QtWidgets'')
                ex_qt_missing_two)"
proof -
  have "\<not> isl (for_each (copy_qt_framework ex_args) QT_FRAMEWORKS ex_fw_dirs)" by code_simp
  then have s0: "for_each (copy_qt_framework ex_args) QT_FRAMEWORKS ex_fw_dirs = Inr ex_fw_copied"
    by (simp add: ex_fw_copied_def)
  have h0: "list_all (\<lambda>name. apart (frameworks_dir ex_args) (fw_src ex_args name)) QT_FRAMEWORKS"
    by code_simp
  then have h1: "\<forall>name\<in>set QT_FRAMEWORKS. apart (frameworks_dir ex_args) (fw_src ex_args name)"
    by (simp add: list_all_iff)
  have h2: "tidy ex_args ex_fw_dirs" by code_simp
  note t2 = qt_frameworks_copied[THEN conjunct2, THEN conjunct1, rule_format, OF s0]
  note tc = t2[THEN conjunct2, THEN conjunct2, rule_format, OF conjI[OF h1 h2]]
  have q: "''QtCore'' \<in> set QT_FRAMEWORKS" by (simp add: QT_FRAMEWORKS_def)
  have o1: "lookup ex_fw_dirs (fw_dst ex_args ''QtCore'' @ ''/'' @ ''stale'') = Some (Other ''old'')"
    by code_simp
  have o2: "lookup ex_fw_dirs (fw_src ex_args ''QtCore'' @ ''/'' @ ''stale'') = None"
    by code_simp
  have o3: "lookup ex_fw_dirs (fw_src ex_args ''QtCore'' @ ''/'' @ ''Versions/5/QtCore'')
        = Some (Bin \<lparr>install_id = Some ''/o/qt/lib/QtCore.framework/Versions/5/QtCore'',
                       load_deps = [''/usr/lib/libSystem.B.dylib''], rpaths = []\<rparr>)"
    by code_simp
  have c2: "lookup ex_fw_copied (fw_dst ex_args ''QtCore'' @ ''/'' @ ''stale'') = None"
    using tc[OF q, of "''stale''"] o2 by simp
  have c3: "lookup ex_fw_copied (fw_dst ex_args ''QtCore'' @ ''/'' @ ''Versions/5/QtCore'')
        = Some (Bin \<lparr>install_id = Some ''/o/qt/lib/QtCore.framework/Versions/5/QtCore'',
                       load_deps = [''/usr/lib/libSystem.B.dylib''], rpaths = []\<rparr>)"
    using tc[OF q, of "''Versions/5/QtCore''"] o3 by simp
  note s1 = ex_run_bundle
  have 2: "\<not> isl (copy_qt_framework ex_args ''QtCore'' ex_qt_missing)" by code_simp
  then have s2: "copy_qt_framework ex_args ''QtCore'' ex_qt_missing
      = Inr (projr (copy_qt_framework ex_args ''QtCore'' ex_qt_missing))" by simp
  have "\<not> isl (for_each mkdir [frameworks_dir ex_args, plugins_dir ex_args, lib_dir ex_args] ex_qt_missing)"
    by code_simp
  then have s3: "for_each mkdir [frameworks_dir ex_args, plugins_dir ex_args, lib_dir ex_args] ex_qt_missing
      = Inr ex_qt_missing_dirs" by (simp add: ex_qt_missing_dirs_def)
  have "\<not> isl (for_each (copy_qt_framework ex_args) [''QtCore'', ''QtGui''] ex_qt_missing_dirs)"
    by code_simp
  then have s4: "for_each (copy_qt_framework ex_args) [''QtCore'', ''QtGui''] ex_qt_missing_dirs
      = Inr ex_qt_missing_two" by (simp add: ex_qt_missing_two_def)
  have 5: "\<not> exists ex_qt_missing_two (fw_src ex_args ''QtWidgets'')" by code_simp
  have 6: "is_dir ex_qt_missing (bundle_dir ex_args)" "exists ex_qt_missing (plugin_bin ex_args)"
    by code_simp+
  have 7: "QT_FRAMEWORKS = [''QtCore'', ''QtGui''] @ ''QtWidgets'' # [''QtNetwork'', ''QtDBus'', ''QtPrintSupport'']"
    by (simp add: QT_FRAMEWORKS_def)
  have 9: "exists ex_qt_missing (fw_dst ex_args ''QtCore'')" by code_simp
  note ts = qt_frameworks_copied[THEN conjunct2, THEN conjunct2, THEN conjunct1, rule_format, OF s1]
  note tn = qt_frameworks_copied[THEN conjunct2, THEN conjunct2, THEN conjunct2, THEN conjunct1,
      rule_format, OF s2, THEN conjunct2]
  note tf = qt_frameworks_copied[THEN conjunct2, THEN conjunct2, THEN conjunct2, THEN conjunct2,
      rule_format, OF conjI[OF 6(1) conjI[OF 6(2) conjI[OF s3 conjI[OF 7 conjI[OF s4 5]]]]], of rev]
  from tn 9 have tn': "new_events ex_qt_missing (projr (copy_qt_framework ex_args ''QtCore'' ex_qt_missing))
       = [Rmtree (fw_dst ex_args ''QtCore''),
          Copytree (fw_src ex_args ''QtCore'') (fw_dst ex_args ''QtCore'')]"
    by simp
  show ?thesis
    by (rule conjI[OF s0 conjI[OF h0 conjI[OF h2 conjI[OF t2[THEN conjunct1] conjI[OF o1
        conjI[OF c2 conjI[OF c3 conjI[OF s1 conjI[OF ts conjI[OF 9 conjI[OF tn' conjI[OF 5 tf]]]]]]]]]]]])
qed

section \<open>The dependency walk\<close>




text \<open>
  C6. \<open>walk\<close> is a total function: its definition was accepted with a proof that either
  the number of names still missing from \<open>Frameworks/lib\<close> falls or the queue gets
  shorter. When it returns, the binaries were processed first in, first out: the
  initial queue in order, then the copied dylibs in the order they were copied. A dylib
  is enqueued only with a copy to a destination that did not exist, no destination is
  enqueued twice, and the number of passes of the loop is at most the length of the
  initial queue plus the number of names that could be missing.
\<close>

theorem walk_breadth_first:
  assumes "walk a w queue = Inr w'"
  shows "processed (new_events w w') = queue @ map snd (copies (new_events w w'))
   \<and> distinct (map snd (copies (new_events w w')))
   \<and> (\<forall>c\<in>set (copies (new_events w w')).
         snd c = lib_dst a (fst c) \<and> \<not> exists w (snd c))
   \<and> length (processed (new_events w w')) \<le> length queue + card (missing a w)"
proof -
  note s = walk_spec[OF assms]
  note l = s[THEN conjunct1]
  have 1: "processed (new_events w w') = queue @ map snd (copies (new_events w w'))"
    using s by blast
  have 3: "\<forall>c\<in>set (copies (new_events w w')).
         snd c = lib_dst a (fst c) \<and> \<not> exists w (snd c)"
    using lib_copiesD(3)[OF l] by blast
  have 4: "length (processed (new_events w w')) \<le> length queue + card (missing a w)"
    using walk_count[OF assms] unfolding 1 by simp
  from 1 lib_copiesD(4)[OF l] 3 4 show ?thesis by (intro conjI)
qed

theorem walk_breadth_first_witness:
  "walk ex_args ex_clash_world [''/b/g'', ''/o/lib/liby.dylib''] = Inr ex_clash_walked2
   \<and> processed (new_events ex_clash_world ex_clash_walked2)
      = [''/b/g'', ''/o/lib/liby.dylib'', ''/b/Frameworks/lib/libx.dylib'',
         ''/b/Frameworks/lib/liby.dylib'']
   \<and> [''/b/g'', ''/o/lib/liby.dylib'', ''/b/Frameworks/lib/libx.dylib'',
       ''/b/Frameworks/lib/liby.dylib'']
      = [''/b/g'', ''/o/lib/liby.dylib'']
        @ map snd (copies (new_events ex_clash_world ex_clash_walked2))
   \<and> length (processed (new_events ex_clash_world ex_clash_walked2))
      \<le> length [''/b/g'', ''/o/lib/liby.dylib''] + card (missing ex_args ex_clash_world)"
proof -
  have "\<not> isl (walk ex_args ex_clash_world [''/b/g'', ''/o/lib/liby.dylib''])" by code_simp
  then have s1: "walk ex_args ex_clash_world [''/b/g'', ''/o/lib/liby.dylib''] = Inr ex_clash_walked2"
    by (simp add: ex_clash_walked2_def)
  have 2: "processed (new_events ex_clash_world ex_clash_walked2)
      = [''/b/g'', ''/o/lib/liby.dylib'', ''/b/Frameworks/lib/libx.dylib'',
         ''/b/Frameworks/lib/liby.dylib'']"
    by code_simp
  note t = walk_breadth_first[OF s1]
  show ?thesis
    by (rule conjI[OF s1 conjI[OF 2 conjI[OF t[THEN conjunct1, unfolded 2]
        t[THEN conjunct2, THEN conjunct2, THEN conjunct2]]]])
qed

section \<open>Copies into Frameworks/lib\<close>

text \<open>
  C9. Throughout the copying of the explicit libs and the walk, every copy goes from a
  source to \<open>Frameworks/lib/<name of the source>\<close>, a destination that did not exist when
  the copying began, and the destination holds afterwards what the source holds. No
  destination and no name is copied to twice, and a file that existed before is never
  written to. The copies are exactly the picks: of the explicit libs, in order, those
  that exist and whose destination does not exist yet; in the walk, of the reported
  paths that pass its tests, in the order they are met, those whose destination does not
  exist yet. So of two sources with one name the first met is copied and the later one
  is passed over, without an error. In a run of \<open>bundle\<close> these are the only copies of
  single files.
\<close>

theorem copy_only_new_names:
  "(copy_libs a bins w = Inr w' \<longrightarrow>
      (\<forall>c\<in>set (copies (new_events w w')).
          snd c = lib_dst a (fst c) \<and> \<not> exists w (snd c)
          \<and> lookup w' (snd c) = lookup w' (fst c))
      \<and> distinct (map snd (copies (new_events w w')))
      \<and> distinct (map (path_name \<circ> fst) (copies (new_events w w')))
      \<and> (\<forall>p. exists w p \<longrightarrow> lookup w' p = lookup w p)
      \<and> (\<exists>w1. for_each (copy_explicit_lib a) (explicit_libs a) w = Inr w1
            \<and> walk a w1 bins = Inr w'
            \<and> copies (new_events w w1) = explicit_picks a (paths w) (explicit_libs a)
            \<and> copies (new_events w1 w')
                = walk_picks a (paths w1)
                    (concat (map (reported w') (processed (new_events w1 w'))))
            \<and> copies (new_events w w') = copies (new_events w w1) @ copies (new_events w1 w')))
   \<and> (bundle_libs order a u = Inr u' \<longrightarrow>
      (\<exists>w1 w2. copy_qt a u = Inr w1
         \<and> copy_libs a (order (initial_binaries a w1)) w1 = Inr w2
         \<and> copies (new_events u u') = copies (new_events w1 w2)))"
proof (intro conjI impI)
  assume c: "copy_libs a bins w = Inr w'"
  then have l: "lib_copies a w w'" by (rule copy_libs_spec)
  show "\<forall>c\<in>set (copies (new_events w w')).
          snd c = lib_dst a (fst c) \<and> \<not> exists w (snd c)
          \<and> lookup w' (snd c) = lookup w' (fst c)"
    using lib_copiesD(3)[OF l] lib_copiesD(6)[OF l] by blast
  show "distinct (map snd (copies (new_events w w')))" by (rule lib_copiesD(4)[OF l])
  show "distinct (map (path_name \<circ> fst) (copies (new_events w w')))"
    by (rule lib_copies_names[OF l])
  show "\<forall>p. exists w p \<longrightarrow> lookup w' p = lookup w p"
    using lib_copiesD(2)[OF l] by blast
  from c obtain w1 where
    1: "for_each (copy_explicit_lib a) (explicit_libs a) w = Inr w1" and 2: "walk a w1 bins = Inr w'"
    by (auto simp: copy_libs_Inr)
  have g1: "grows w w1" using for_each_grows[OF 1] copy_explicit_lib_grows by blast
  have "copies (new_events w w') = copies (new_events w w1) @ copies (new_events w1 w')"
    using new_events_trans[OF g1 walk_grows[OF 2]] by simp
  with 1 2 copy_explicit_picks[OF 1] walk_picks_spec[OF 2]
  show "\<exists>w1. for_each (copy_explicit_lib a) (explicit_libs a) w = Inr w1
            \<and> walk a w1 bins = Inr w'
            \<and> copies (new_events w w1) = explicit_picks a (paths w) (explicit_libs a)
            \<and> copies (new_events w1 w')
                = walk_picks a (paths w1)
                    (concat (map (reported w') (processed (new_events w1 w'))))
            \<and> copies (new_events w w') = copies (new_events w w1) @ copies (new_events w1 w')"
    by blast
next
  assume "bundle_libs order a u = Inr u'"
  then show "\<exists>w1 w2. copy_qt a u = Inr w1
         \<and> copy_libs a (order (initial_binaries a w1)) w1 = Inr w2
         \<and> copies (new_events u u') = copies (new_events w1 w2)"
    by (rule bundle_copies) blast
qed

theorem copy_only_new_names_witness:
  "copy_libs ex_args [''/b/g''] ex_clash_world = Inr ex_clash_libs
   \<and> copies (new_events ex_clash_world ex_clash_libs)
       = [(''/o/lib/libx.dylib'', ''/b/Frameworks/lib/libx.dylib''),
          (''/o/lib/liby.dylib'', ''/b/Frameworks/lib/liby.dylib'')]
   \<and> distinct (map snd [(''/o/lib/libx.dylib'', ''/b/Frameworks/lib/libx.dylib''),
          (''/o/lib/liby.dylib'', ''/b/Frameworks/lib/liby.dylib'')])
   \<and> exists ex_clash_world ''/o/alt/libx.dylib''
   \<and> lookup ex_clash_libs ''/o/alt/libx.dylib'' = lookup ex_clash_world ''/o/alt/libx.dylib''
   \<and> bundle_libs rev ex_args ex_run_world = Inr ex_run_done
   \<and> copies (new_events ex_run_world ex_run_done)
       = [(''/o/lib/libfftw3.3.dylib'', ''/b/Frameworks/lib/libfftw3.3.dylib''),
          (''/o/lib/libx.dylib'', ''/b/Frameworks/lib/libx.dylib'')]
   \<and> (\<exists>w1 w2. copy_qt ex_args ex_run_world = Inr w1
         \<and> copy_libs ex_args (rev (initial_binaries ex_args w1)) w1 = Inr w2
         \<and> [(''/o/lib/libfftw3.3.dylib'', ''/b/Frameworks/lib/libfftw3.3.dylib''),
             (''/o/lib/libx.dylib'', ''/b/Frameworks/lib/libx.dylib'')]
            = copies (new_events w1 w2))"
proof -
  have "\<not> isl (copy_libs ex_args [''/b/g''] ex_clash_world)" by code_simp
  then have s1: "copy_libs ex_args [''/b/g''] ex_clash_world = Inr ex_clash_libs"
    by (simp add: ex_clash_libs_def)
  have 2: "copies (new_events ex_clash_world ex_clash_libs)
       = [(''/o/lib/libx.dylib'', ''/b/Frameworks/lib/libx.dylib''),
          (''/o/lib/liby.dylib'', ''/b/Frameworks/lib/liby.dylib'')]"
    by code_simp
  have 3: "exists ex_clash_world ''/o/alt/libx.dylib''" by code_simp
  note t = copy_only_new_names[THEN conjunct1, rule_format, OF s1]
  note t2 = t[THEN conjunct2, THEN conjunct1, unfolded 2]
  note t4 = t[THEN conjunct2, THEN conjunct2, THEN conjunct2, THEN conjunct1, rule_format, OF 3]
  have 5: "copies (new_events ex_run_world ex_run_done)
       = [(''/o/lib/libfftw3.3.dylib'', ''/b/Frameworks/lib/libfftw3.3.dylib''),
          (''/o/lib/libx.dylib'', ''/b/Frameworks/lib/libx.dylib'')]"
    by code_simp
  note b = copy_only_new_names[THEN conjunct2, rule_format, OF ex_run_bundle, unfolded 5]
  show ?thesis
    by (rule conjI[OF s1 conjI[OF 2 conjI[OF t2 conjI[OF 3 conjI[OF t4
        conjI[OF ex_run_bundle conjI[OF 5 b]]]]]]])
qed

section \<open>Install names\<close>



end
